theory Spec2Isabelle
  imports Complex_Main "HOL-Library.Multiset"
begin

section \<open>Values of the Python program\<close>

text \<open>
  The crawl driver is the class \<open>PoiManager\<close> of \<open>poi_manager.py\<close>. Its scores are
  Python floats; they are read here as the real numbers they denote, so that
  \<open>ai_score * 0.4 + depth_score * 0.6\<close> is the arithmetic of the formula and a
  comparison such as \<open>ai_score < 0.5\<close> is the comparison of the two numbers.

  An exception is a value of type \<open>error\<close>: \<open>ValueError\<close> is what
  \<open>urllib.parse.urlparse\<close> raises on a malformed URL, \<open>Exception\<close> stands for any
  other instance of Python's class \<open>Exception\<close> (a network failure, a refusal of the
  language model). Signals that derive from \<open>BaseException\<close> only
  (\<open>KeyboardInterrupt\<close>, \<open>SystemExit\<close>) end the interpreter and are not part of the
  model.
\<close>

datatype error = ValueError | Exception string

text \<open>What the driver reads of \<open>urlparse(url)\<close>: the fields \<open>netloc\<close> and \<open>path\<close>.\<close>

record parse_result =
  netloc :: string
  path :: string

text \<open>
  \<open>ScoredURL(url, score)\<close>, \<open>PoiData\<close> and \<open>PoiValidationResult\<close> are declared in
  \<open>poi_types.py\<close>; the fields are those the driver and the validator agent use.
\<close>

datatype scored_url = ScoredURL (url: string) (score: real)

record poi_data =
  name :: string
  description :: string
  category :: string
  location :: "string option"

record poi_validation_result =
  is_valid :: bool
  checked_name :: string
  checked_description :: string
  raw_response :: string

text \<open>
  An entry of \<open>poi_list\<close> is the dictionary
  \<open>{"description": _, "category": _, "location": _}\<close>, kept as the triple of its values.
\<close>

type_synonym poi_entry = "string \<times> string \<times> string option"

text \<open>
  The Python runtime and standard library, as far as the driver calls them, are
  parameters of the model:
  \<^item> \<open>urlparse\<close> is \<open>urllib.parse.urlparse\<close>, which returns the parts of a URL or
    raises;
  \<^item> \<open>py_repr\<close> is \<open>repr\<close> on strings and \<open>float_str\<close> is \<open>str\<close> on floats, used
    by the messages only;
  \<^item> \<open>set_key n\<close> fixes the order in which the iteration that follows \<open>n\<close> earlier
    scraper invocations walks through the Python set of new links (that order is
    not specified by the language): the elements are listed by increasing key.
\<close>

record env =
  urlparse :: "string \<Rightarrow> error + parse_result"
  py_repr :: "string \<Rightarrow> string"
  float_str :: "real \<Rightarrow> string"
  set_key :: "nat \<Rightarrow> string \<times> real \<Rightarrow> nat"

text \<open>The validator: \<open>poi_validator.validate(name, description, category, location)\<close>.\<close>

type_synonym validator =
  "string \<Rightarrow> string \<Rightarrow> string \<Rightarrow> string option \<Rightarrow> error + poi_validation_result"

section \<open>The state of a \<open>PoiManager\<close>\<close>

text \<open>
  The attributes of \<open>PoiManager\<close> (the validator is passed to \<open>register_poi\<close>
  instead of being stored). \<open>url_queue\<close> holds the entries of the
  \<open>PriorityQueue\<close> in the order of their insertion.
\<close>

record manager =
  base_url :: string
  base_domain :: string
  visited_urls :: "string set"
  url_queue :: "scored_url list"
  poi_list :: "string \<rightharpoonup> poi_entry"
  all_links_with_scores :: "(string \<times> real) list"
  current_url_links_with_scores :: "(string \<times> real) list"

text \<open>\<open>PoiManager.__init__\<close>; it raises when \<open>urlparse(base_url)\<close> does.\<close>

definition init :: "env \<Rightarrow> string \<Rightarrow> error + manager" where
  "init ev seed =
     (case urlparse ev seed of
        Inl e \<Rightarrow> Inl e
      | Inr p \<Rightarrow>
          Inr \<lparr>base_url = seed, base_domain = netloc p, visited_urls = {},
               url_queue = [], poi_list = Map.empty, all_links_with_scores = [],
               current_url_links_with_scores = []\<rparr>)"

section \<open>The priority queue\<close>

text \<open>
  Modelled from the spec: the comparison \<open>ScoredURL.__lt__\<close> lives in
  \<open>poi_types.py\<close>, which is not among the sources. The spec's data model says
  "higher priority is dequeued first"; Python's \<open>PriorityQueue\<close> retrieves the
  entry that is lowest under \<open><\<close>, so an entry is below another one when its
  score is the greater one.
\<close>

definition scored_url_lt :: "scored_url \<Rightarrow> scored_url \<Rightarrow> bool" where
  "scored_url_lt a b = (score b < score a)"

text \<open>
  \<open>queue.PriorityQueue\<close> by its contract: \<open>put\<close> adds an entry, \<open>get\<close> removes and
  returns an entry that no other entry is below, \<open>empty\<close> tests for no entries.
  Among entries that are equally low \<open>get\<close> takes the one inserted first.
  \<open>get\<close> on an empty queue blocks for ever: the result \<open>None\<close>.
\<close>

definition pq_put :: "scored_url list \<Rightarrow> scored_url \<Rightarrow> scored_url list" where
  "pq_put q x = q @ [x]"

fun pq_get :: "scored_url list \<Rightarrow> (scored_url \<times> scored_url list) option" where
  "pq_get [] = None"
| "pq_get (x # xs) =
     (case pq_get xs of
        None \<Rightarrow> Some (x, [])
      | Some (y, ys) \<Rightarrow> if scored_url_lt y x then Some (y, x # ys) else Some (x, xs))"

definition pq_empty :: "scored_url list \<Rightarrow> bool" where
  "pq_empty q = (q = [])"

section \<open>Registration callbacks\<close>

text \<open>
  \<open>register_poi\<close>: the validator may raise, and the exception leaves the function;
  otherwise the result is the message and the new state. The rejection message
  formats the tuple \<open>(poi.name, poi.description)\<close>, which prints the \<open>repr\<close> of
  both strings; a location \<open>None\<close> prints as \<open>None\<close>.
\<close>

definition register_poi ::
    "env \<Rightarrow> validator \<Rightarrow> manager \<Rightarrow> poi_data \<Rightarrow> error + (string \<times> manager)" where
  "register_poi ev validate st poi =
     (case validate (name poi) (description poi) (category poi) (location poi) of
        Inl e \<Rightarrow> Inl e
      | Inr poi_validation_result \<Rightarrow>
          if \<not> is_valid poi_validation_result then
            Inr (''POI validation failed for: ('' @ py_repr ev (name poi) @ '', ''
                   @ py_repr ev (description poi) @ '')'', st)
          else
            Inr (''POI registered: '' @ name poi @ '', Category: '' @ category poi
                   @ '', Location: ''
                   @ (case location poi of None \<Rightarrow> ''None'' | Some l \<Rightarrow> l),
                 st\<lparr>poi_list := (poi_list st)
                      (name poi \<mapsto> (description poi, category poi, location poi))\<rparr>))"

definition register_link :: "env \<Rightarrow> manager \<Rightarrow> string \<Rightarrow> real \<Rightarrow> string \<times> manager" where
  "register_link ev st u s =
     (''Link registered: '' @ u @ '', AI score: '' @ float_str ev s,
      st\<lparr>all_links_with_scores := all_links_with_scores st @ [(u, s)]\<rparr>)"

section \<open>The link scorer and the admission of new links\<close>

text \<open>\<open>str.split(sep)\<close> for a separator of one character.\<close>

fun split_on :: "char \<Rightarrow> string \<Rightarrow> string list" where
  "split_on c [] = [[]]"
| "split_on c (x # xs) =
     (let r = split_on c xs in
      if x = c then [] # r else (x # hd r) # tl r)"

definition calculate_depth_score :: "env \<Rightarrow> string \<Rightarrow> error + real" where
  "calculate_depth_score ev u =
     (case urlparse ev u of
        Inl e \<Rightarrow> Inl e
      | Inr p \<Rightarrow>
          (let depth = int (length (split_on CHR ''/'' (path p))) - 1 in
           Inr (if depth = 0 then 0.0
                else if depth = 1 then 0.3
                else if depth = 2 then 0.5
                else if depth = 3 then 0.7
                else 0.9)))"

definition calculate_final_score :: "real \<Rightarrow> real \<Rightarrow> real" where
  "calculate_final_score ai_score depth_score = (ai_score * 0.4) + (depth_score * 0.6)"

definition add_to_queue :: "manager \<Rightarrow> string \<Rightarrow> real \<Rightarrow> manager" where
  "add_to_queue st u s = st\<lparr>url_queue := pq_put (url_queue st) (ScoredURL u s)\<rparr>"

definition should_process_url :: "env \<Rightarrow> manager \<Rightarrow> string \<Rightarrow> error + bool" where
  "should_process_url ev st u =
     (if u \<in> visited_urls st then Inr False
      else (case urlparse ev u of
              Inl e \<Rightarrow> Inl e
            | Inr p \<Rightarrow> Inr (netloc p = base_domain st)))"

text \<open>
  The loop of \<open>_process_new_urls\<close> over a list of \<open>(url, ai_score)\<close> pairs. An
  exception leaves the loop at once; what was put on the queue before stays there.
  The result is the exception, if any, and the state reached.
\<close>

fun process_links :: "env \<Rightarrow> manager \<Rightarrow> (string \<times> real) list \<Rightarrow> error option \<times> manager" where
  "process_links ev st [] = (None, st)"
| "process_links ev st ((u, ai_score) # rest) =
     (if ai_score < 0.5 then process_links ev st rest
      else
        (case should_process_url ev st u of
           Inl e \<Rightarrow> (Some e, st)
         | Inr False \<Rightarrow> process_links ev st rest
         | Inr True \<Rightarrow>
             (case calculate_depth_score ev u of
                Inl e \<Rightarrow> (Some e, st)
              | Inr depth_score \<Rightarrow>
                  process_links ev
                    (add_to_queue st u (calculate_final_score ai_score depth_score)) rest)))"

definition process_new_urls :: "env \<Rightarrow> manager \<Rightarrow> error option \<times> manager" where
  "process_new_urls ev st = process_links ev st (current_url_links_with_scores st)"

section \<open>The scraper\<close>

text \<open>
  The scraper is an external agent. One invocation calls \<open>register_poi\<close> and
  \<open>register_link\<close> some number of times and then returns or raises. It is given by
  what it does: the list of its callbacks, in order, and how it ends. A callback
  \<open>RegisterPoi poi r\<close> is a call \<open>register_poi(poi)\<close> during which the validator
  answered \<open>r\<close> (a verdict or an exception). A scraper maps the number of earlier
  invocations and the URL to this behaviour, so that it may answer differently each
  time. A scraper factory returns the scraper or raises.
\<close>

datatype callback =
    RegisterPoi poi_data "error + poi_validation_result"
  | RegisterLink string real

datatype outcome = Returned | Raised error

type_synonym scraper = "nat \<Rightarrow> string \<Rightarrow> callback list \<times> outcome"

fun run_callback :: "env \<Rightarrow> manager \<Rightarrow> callback \<Rightarrow> manager" where
  "run_callback ev st (RegisterPoi poi r) =
     (case register_poi ev (\<lambda>_ _ _ _. r) st poi of
        Inl e \<Rightarrow> st
      | Inr (msg, st') \<Rightarrow> st')"
| "run_callback ev st (RegisterLink u s) = snd (register_link ev st u s)"

definition run_callbacks :: "env \<Rightarrow> manager \<Rightarrow> callback list \<Rightarrow> manager" where
  "run_callbacks ev st cbs = foldl (run_callback ev) st cbs"

section \<open>The crawl loop\<close>

text \<open>\<open>list(set(all_links) - set(current_links))\<close>, walked in the order \<open>set_key\<close> gives.\<close>

definition new_links ::
    "env \<Rightarrow> nat \<Rightarrow> (string \<times> real) list \<Rightarrow> (string \<times> real) list \<Rightarrow> (string \<times> real) list" where
  "new_links ev n all_links current_links =
     sort_key (set_key ev n) (remdups (filter (\<lambda>p. p \<notin> set current_links) all_links))"

text \<open>
  The body of the \<open>try\<close> statement for the URL just taken from the queue; \<open>n\<close> is
  the number of earlier scraper invocations. The result is the exception that left
  the body, if any, and the state at that moment.
\<close>

definition try_body ::
    "env \<Rightarrow> scraper \<Rightarrow> nat \<Rightarrow> manager \<Rightarrow> string \<Rightarrow> error option \<times> manager" where
  "try_body ev sc n st current_url =
     (case sc n current_url of
        (cbs, Raised e) \<Rightarrow> (Some e, run_callbacks ev st cbs)
      | (cbs, Returned) \<Rightarrow>
          (let st1 = run_callbacks ev st cbs;
               st2 = st1\<lparr>current_url_links_with_scores :=
                       new_links ev n (all_links_with_scores st1)
                         (current_url_links_with_scores st1)\<rparr>
           in case process_new_urls ev st2 of
                (Some e, st3) \<Rightarrow> (Some e, st3)
              | (None, st3) \<Rightarrow>
                  (None, st3\<lparr>visited_urls := insert current_url (visited_urls st3)\<rparr>)))"

text \<open>
  The crawl carries, next to the manager, the history of the scraper invocations
  made so far, oldest first: the URL, what the scraper did, and the exception caught
  by \<open>except Exception\<close> (\<open>None\<close> when the iteration ran to its end). The history
  is not a variable of the program; properties of a whole crawl are stated on it.
\<close>

type_synonym history = "(string \<times> (callback list \<times> outcome) \<times> error option) list"

text \<open>
  One pass through the body of the \<open>while\<close> loop. \<open>None\<close>: \<open>get\<close> blocks (the queue
  is empty; the loop test excludes it).
\<close>

definition iteration ::
    "env \<Rightarrow> scraper \<Rightarrow> history \<times> manager \<Rightarrow> (history \<times> manager) option" where
  "iteration ev sc c =
     (case c of (h, st) \<Rightarrow>
        (case pq_get (url_queue st) of
           None \<Rightarrow> None
         | Some (x, q) \<Rightarrow>
             (let st0 = st\<lparr>url_queue := q\<rparr>; current_url = url x in
              if current_url \<in> visited_urls st0 then Some (h, st0)
              else (case try_body ev sc (length h) st0 current_url of
                      (r, st') \<Rightarrow>
                        Some (h @ [(current_url, sc (length h) current_url, r)], st')))))"

text \<open>The \<open>while\<close> loop; \<open>None\<close> when it never ends.\<close>

partial_function (option) crawl_loop ::
    "env \<Rightarrow> scraper \<Rightarrow> history \<times> manager \<Rightarrow> (history \<times> manager) option" where
  "crawl_loop ev sc c =
     (if pq_empty (url_queue (snd c)) then Some c
      else (case iteration ev sc c of
              None \<Rightarrow> None
            | Some c' \<Rightarrow> crawl_loop ev sc c'))"

text \<open>The state after at most \<open>k\<close> passes through the loop body.\<close>

fun crawl_steps :: "env \<Rightarrow> scraper \<Rightarrow> nat \<Rightarrow> history \<times> manager \<Rightarrow> history \<times> manager" where
  "crawl_steps ev sc 0 c = c"
| "crawl_steps ev sc (Suc k) c =
     (if pq_empty (url_queue (snd c)) then c
      else (case iteration ev sc c of
              None \<Rightarrow> c
            | Some c' \<Rightarrow> crawl_steps ev sc k c'))"

text \<open>The state in which the loop is entered: the seed is on the queue.\<close>

definition crawl_start :: "manager \<Rightarrow> history \<times> manager" where
  "crawl_start st = ([], add_to_queue st (base_url st) 1.0)"

text \<open>
  \<open>PoiManager.process\<close>: the result is \<open>None\<close> when the loop never ends, the
  exception of the scraper factory when it raises, and otherwise the returned
  \<open>poi_list\<close> with the final state of the manager.
\<close>

definition process ::
    "env \<Rightarrow> (manager \<Rightarrow> error + scraper) \<Rightarrow> manager
       \<Rightarrow> (error + (string \<rightharpoonup> poi_entry) \<times> manager) option" where
  "process ev scraper_factory st =
     (case scraper_factory st of
        Inl e \<Rightarrow> Some (Inl e)
      | Inr sc \<Rightarrow>
          (case crawl_loop ev sc (crawl_start st) of
             None \<Rightarrow> None
           | Some (h, st') \<Rightarrow> Some (Inr (poi_list st', st'))))"

section \<open>A URL parser for the examples\<close>

text \<open>
  The closed examples below need a concrete \<open>urlparse\<close>. \<open>simple_urlparse\<close> follows
  \<open>urllib.parse.urlsplit\<close> on ASCII URLs: an optional scheme (a letter, then
  characters of \<open>scheme_chars\<close>, then a colon); after \<open>//\<close> the network location up
  to the first of \<open>/ ? #\<close>; \<open>ValueError\<close> ("Invalid IPv6 URL") when the location
  has one of \<open>[\<close> and \<open>]\<close> without the other; the path up to the first \<open>?\<close> or \<open>#\<close>.
  It leaves out the stripping of control characters, the parameters after \<open>;\<close> and
  the checks of a bracketed host; the examples use none of them.
\<close>

definition scheme_chars :: string where
  "scheme_chars = ''abcdefghijklmnopqrstuvwxyzABCDEFGHIJKLMNOPQRSTUVWXYZ0123456789+-.''"

definition split_scheme :: "string \<Rightarrow> string" where
  "split_scheme s =
     (let w = takeWhile (\<lambda>c. c \<noteq> CHR '':'') s in
      if w \<noteq> [] \<and> length w < length s \<and> hd w \<in> set (take 52 scheme_chars)
           \<and> list_all (\<lambda>c. c \<in> set scheme_chars) w
      then drop (Suc (length w)) s else s)"

definition simple_urlparse :: "string \<Rightarrow> error + parse_result" where
  "simple_urlparse s =
     (let r = split_scheme s in
      if take 2 r = ''//'' then
        (let nl = takeWhile (\<lambda>c. c \<notin> set ''/?#'') (drop 2 r);
             rest = dropWhile (\<lambda>c. c \<notin> set ''/?#'') (drop 2 r)
         in if (CHR ''['' \<in> set nl) \<noteq> (CHR '']'' \<in> set nl) then Inl ValueError
            else Inr \<lparr>netloc = nl, path = takeWhile (\<lambda>c. c \<notin> set ''?#'') rest\<rparr>)
      else Inr \<lparr>netloc = [], path = takeWhile (\<lambda>c. c \<notin> set ''?#'') r\<rparr>)"

definition example_env :: env where
  "example_env =
     \<lparr>urlparse = simple_urlparse, py_repr = (\<lambda>s. [CHR 0x27] @ s @ [CHR 0x27]),
      float_str = (\<lambda>x. ''?''), set_key = (\<lambda>n p. 0)\<rparr>"

section \<open>The spec's notions, for comparison with the code\<close>

text \<open>
  The spec's depth of a URL: the count of non-empty path segments; and the spec's
  table from a depth to the base depth score.
\<close>

definition nonempty_segments :: "string \<Rightarrow> nat" where
  "nonempty_segments p = length (filter (\<lambda>w. w \<noteq> []) (split_on CHR ''/'' p))"

definition depth_base :: "nat \<Rightarrow> real" where
  "depth_base d =
     (if d = 0 then 0.0 else if d = 1 then 0.3 else if d = 2 then 0.5
      else if d = 3 then 0.7 else 0.9)"

text \<open>
  A path without an empty segment after its leading slash: it is empty, or it
  starts with a slash and every segment after that slash is non-empty (so it ends
  with no slash and has no doubled slash; a relative path such as \<open>a/b\<close> is not of
  this kind).
\<close>

definition clean_path :: "string \<Rightarrow> bool" where
  "clean_path p =
     (case split_on CHR ''/'' p of
        [] \<Rightarrow> False
      | w # ws \<Rightarrow> w = [] \<and> list_all (\<lambda>s. s \<noteq> []) ws)"

section \<open>Notions used to state the properties\<close>

text \<open>The links a list of callbacks reports, in order.\<close>

fun reported_links :: "callback list \<Rightarrow> (string \<times> real) list" where
  "reported_links [] = []"
| "reported_links (RegisterLink u s # cbs) = (u, s) # reported_links cbs"
| "reported_links (RegisterPoi poi r # cbs) = reported_links cbs"

text \<open>
  The registrations of a list of callbacks for which the validator returned a
  verdict with \<open>is_valid\<close>, as pairs of the name and the entry, in order.
\<close>

fun accepted_pois :: "callback list \<Rightarrow> (string \<times> poi_entry) list" where
  "accepted_pois [] = []"
| "accepted_pois (RegisterPoi poi (Inr r) # cbs) =
     (if is_valid r
      then (name poi, (description poi, category poi, location poi)) # accepted_pois cbs
      else accepted_pois cbs)"
| "accepted_pois (RegisterPoi poi (Inl e) # cbs) = accepted_pois cbs"
| "accepted_pois (RegisterLink u s # cbs) = accepted_pois cbs"

text \<open>All callbacks of a history, oldest first.\<close>

definition performed :: "history \<Rightarrow> callback list" where
  "performed h = concat (map (\<lambda>(u, b, r). fst b) h)"

text \<open>The entries that processing a list of links puts on the queue.\<close>

definition pushed :: "env \<Rightarrow> manager \<Rightarrow> (string \<times> real) list \<Rightarrow> scored_url list" where
  "pushed ev st ls = drop (length (url_queue st)) (url_queue (snd (process_links ev st ls)))"

text \<open>
  The URLs of the iterations that ran to their end, and the URLs for which the
  scraper returned.
\<close>

definition completed_urls :: "history \<Rightarrow> string list" where
  "completed_urls h = map fst (filter (\<lambda>(u, b, r). r = None) h)"

definition scraped_urls :: "history \<Rightarrow> string list" where
  "scraped_urls h = map fst (filter (\<lambda>(u, b, r). snd b = Returned) h)"

text \<open>No URL is scraped again after an iteration for it ran to its end.\<close>

fun never_rescraped :: "history \<Rightarrow> bool" where
  "never_rescraped [] = True"
| "never_rescraped ((u, b, r) # h) =
     ((if r = None then u \<notin> fst ` set h else True) \<and> never_rescraped h)"

text \<open>
  An entry stems from a list of links: some report of the list has a score of at
  least 0.5 and a URL that is not visited and on the seed's network location, and
  the entry carries that URL with the priority \<open>0.4 * score + 0.6 * depth_base\<close> of
  the number of slashes in its path.
\<close>

definition admitted_from :: "env \<Rightarrow> manager \<Rightarrow> (string \<times> real) list \<Rightarrow> scored_url \<Rightarrow> bool" where
  "admitted_from ev st ls x =
     (\<exists>u s p. (u, s) \<in> set ls \<and> 0.5 \<le> s \<and> u \<notin> visited_urls st
        \<and> urlparse ev u = Inr p \<and> netloc p = base_domain st
        \<and> x = ScoredURL u (0.4 * s + 0.6 * depth_base (count_list (path p) CHR ''/'')))"

section \<open>Example data\<close>

text \<open>
  A manager for the seed \<open>https://e.com\<close>, as \<open>init\<close> returns it, a candidate, the
  two verdicts of a validator, and a scraper that registers two candidates, of which
  the validator accepts the first.
\<close>

definition example_manager :: manager where
  "example_manager =
     \<lparr>base_url = ''https://e.com'', base_domain = ''e.com'', visited_urls = {},
      url_queue = [], poi_list = Map.empty, all_links_with_scores = [],
      current_url_links_with_scores = []\<rparr>"

definition beach :: poi_data where
  "beach = \<lparr>name = ''Beach'', description = ''Sand'', category = ''Nature'', location = None\<rparr>"

definition verdict :: "bool \<Rightarrow> poi_validation_result" where
  "verdict b =
     \<lparr>is_valid = b, checked_name = ''Beach'', checked_description = ''Sand'',
      raw_response = (if b then ''Yes'' else ''No'')\<rparr>"

definition beach_scraper :: scraper where
  "beach_scraper n u =
     ([RegisterPoi beach (Inr (verdict True)),
       RegisterPoi (beach\<lparr>name := ''Tips''\<rparr>) (Inr (verdict False))], Returned)"

text \<open>A queue of three entries; the seed, with priority 1.0, is the second one.\<close>

definition example_queue :: "scored_url list" where
  "example_queue =
     [ScoredURL ''https://e.com/a'' 0.54, ScoredURL ''https://e.com'' 1.0,
      ScoredURL ''https://e.com/b'' 0.3]"

text \<open>
  A scraper that reports, on the seed page, a link to another host with score 1.0,
  a link with score 0.49, and a link of the seed's host with score 1.0 at depth 2.
\<close>

definition links_scraper :: scraper where
  "links_scraper n u =
     (if n = 0
      then ([RegisterLink ''https://x.org/b'' 1.0, RegisterLink ''https://e.com/c'' 0.49,
             RegisterLink ''https://e.com/g/p'' 1.0], Returned)
      else ([], Returned))"



text \<open>A scraper that finds nothing: it returns without any callback.\<close>

definition silent_scraper :: scraper where
  "silent_scraper n u = ([], Returned)"

text \<open>
  A scraper that reports the page \<open>https://e.com/a\<close> twice on the seed page, with
  two scores; invoked for that page the first time, it reports a malformed URL and
  returns; invoked again, it returns without a callback.
\<close>

definition retry_scraper :: scraper where
  "retry_scraper n u =
     (if n = 0
      then ([RegisterLink ''https://e.com/a'' 0.9, RegisterLink ''https://e.com/a'' 0.8], Returned)
      else if n = 1 then ([RegisterLink ''http://[bad'' 0.9], Returned)
      else ([], Returned))"

text \<open>
  Two scrapers that report the pages \<open>a\<close> and \<open>b\<close> on the seed page and raise when
  invoked for \<open>a\<close>, after reporting one link: \<open>recover_scraper\<close> reports a new page
  \<open>d\<close> there, \<open>repeat_scraper\<close> reports \<open>b\<close> with the score it already has in the log.
  \<open>before_failure\<close> is the state in which either scraper is invoked for \<open>a\<close>.
\<close>

definition recover_scraper :: scraper where
  "recover_scraper n u =
     (if n = 0
      then ([RegisterLink ''https://e.com/a'' 0.9, RegisterLink ''https://e.com/b'' 0.8], Returned)
      else if n = 1 then ([RegisterLink ''https://e.com/d'' 0.9], Raised (Exception ''timeout''))
      else ([], Returned))"

definition repeat_scraper :: scraper where
  "repeat_scraper n u =
     (if n = 0
      then ([RegisterLink ''https://e.com/a'' 0.9, RegisterLink ''https://e.com/b'' 0.8], Returned)
      else if n = 1 then ([RegisterLink ''https://e.com/b'' 0.8], Raised (Exception ''timeout''))
      else ([], Returned))"

definition before_failure :: manager where
  "before_failure =
     example_manager\<lparr>visited_urls := {''https://e.com''},
       url_queue := [ScoredURL ''https://e.com/b'' 0.5],
       all_links_with_scores := [(''https://e.com/a'', 0.9), (''https://e.com/b'', 0.8)],
       current_url_links_with_scores := [(''https://e.com/a'', 0.9), (''https://e.com/b'', 0.8)]\<rparr>"

text \<open>
  The states of the crawl of \<open>recover_scraper\<close> after the failed iteration for \<open>a\<close>
  and after the following iteration for \<open>b\<close>.
\<close>

definition after_failure :: manager where
  "after_failure =
     before_failure\<lparr>all_links_with_scores :=
       [(''https://e.com/a'', 0.9), (''https://e.com/b'', 0.8), (''https://e.com/d'', 0.9)]\<rparr>"

definition after_recovery :: manager where
  "after_recovery =
     after_failure\<lparr>visited_urls := {''https://e.com/b'', ''https://e.com''},
       url_queue := [ScoredURL ''https://e.com/d'' 0.54],
       current_url_links_with_scores := [(''https://e.com/d'', 0.9)]\<rparr>"

text \<open>
  A scraper that reports the pages \<open>a\<close> and \<open>b\<close> on the seed page and nothing on any
  other page.
\<close>

definition two_links :: scraper where
  "two_links n u =
     (if n = 0
      then ([RegisterLink ''https://e.com/a'' 0.9, RegisterLink ''https://e.com/b'' 0.9], Returned)
      else ([], Returned))"

section \<open>Facts about the helper functions\<close>

lemma length_split_on: "length (split_on c s) = Suc (count_list s c)"
  by (induction s) (auto simp: Let_def)


lemma split_on_not_Nil: "split_on c s \<noteq> []"
  using length_split_on [of c s] by auto

lemma clean_path_segments:
  assumes "clean_path p"
  shows "nonempty_segments p = count_list p CHR ''/''"
proof -
  obtain w ws where ws: "split_on CHR ''/'' p = w # ws"
    using split_on_not_Nil [of "CHR ''/''" p] by (cases "split_on CHR ''/'' p") auto
  with assms have w: "w = []" and all: "list_all (\<lambda>s. s \<noteq> []) ws"
    by (simp_all add: clean_path_def)
  from all have "filter (\<lambda>s. s \<noteq> []) ws = ws"
    by (simp add: list_all_iff)
  with ws w have "nonempty_segments p = length ws"
    by (simp add: nonempty_segments_def)
  moreover from ws have "Suc (count_list p CHR ''/'') = Suc (length ws)"
    using length_split_on [of "CHR ''/''" p] by simp
  ultimately show ?thesis by simp
qed

lemma depth_score_eq:
  assumes "urlparse ev u = Inr p"
  shows "calculate_depth_score ev u = Inr (depth_base (count_list (path p) CHR ''/''))"
  using assms by (simp add: calculate_depth_score_def length_split_on depth_base_def)

lemmas parse_simps = example_env_def simple_urlparse_def split_scheme_def scheme_chars_def

lemma parse_places:
  "urlparse example_env ''https://example.com/guide/places''
     = Inr \<lparr>netloc = ''example.com'', path = ''/guide/places''\<rparr>"
  by (simp add: parse_simps)

subsection \<open>Callbacks\<close>

lemma reported_links_append: "reported_links (xs @ ys) = reported_links xs @ reported_links ys"
  by (induction xs rule: reported_links.induct) auto

lemma accepted_pois_append: "accepted_pois (xs @ ys) = accepted_pois xs @ accepted_pois ys"
  by (induction xs rule: accepted_pois.induct) auto

lemma run_callback_eq:
  "run_callback ev st cb =
     st\<lparr>poi_list := poi_list st ++ map_of (rev (accepted_pois [cb])),
        all_links_with_scores := all_links_with_scores st @ reported_links [cb]\<rparr>"
proof (cases cb)
  case (RegisterPoi poi r)
  then show ?thesis
    by (cases r) (auto simp: register_poi_def map_add_def fun_eq_iff)
next
  case (RegisterLink u s)
  then show ?thesis by (simp add: register_link_def)
qed

lemma run_callbacks_eq:
  "run_callbacks ev st cbs =
     st\<lparr>poi_list := poi_list st ++ map_of (rev (accepted_pois cbs)),
        all_links_with_scores := all_links_with_scores st @ reported_links cbs\<rparr>"
  unfolding run_callbacks_def
proof (induction cbs arbitrary: st)
  case Nil
  show ?case by simp
next
  case (Cons cb cbs)
  have a: "accepted_pois (cb # cbs) = accepted_pois [cb] @ accepted_pois cbs"
    using accepted_pois_append [of "[cb]" cbs] by simp
  have r: "reported_links (cb # cbs) = reported_links [cb] @ reported_links cbs"
    using reported_links_append [of "[cb]" cbs] by simp
  have "foldl (run_callback ev) st (cb # cbs)
          = foldl (run_callback ev) (run_callback ev st cb) cbs"
    by simp
  also have "\<dots> = (run_callback ev st cb)
      \<lparr>poi_list := poi_list (run_callback ev st cb) ++ map_of (rev (accepted_pois cbs)),
       all_links_with_scores :=
         all_links_with_scores (run_callback ev st cb) @ reported_links cbs\<rparr>"
    by (rule Cons.IH)
  also have "\<dots> = st\<lparr>poi_list := poi_list st ++ map_of (rev (accepted_pois (cb # cbs))),
        all_links_with_scores := all_links_with_scores st @ reported_links (cb # cbs)\<rparr>"
    unfolding a r by (simp add: run_callback_eq)
  finally show ?case .
qed

subsection \<open>Processing a list of links\<close>

lemma should_process_url_queue [simp]:
  "should_process_url ev (add_to_queue st u s) v = should_process_url ev st v"
  by (simp add: should_process_url_def add_to_queue_def split: sum.splits)

lemma process_links_state:
  "\<exists>qs. snd (process_links ev st ls) = st\<lparr>url_queue := url_queue st @ qs\<rparr>
        \<and> (\<forall>x\<in>set qs. admitted_from ev st ls x)"
proof (induction ev st ls rule: process_links.induct)
  case (1 ev st)
  show ?case by (rule exI [of _ "[]"]) simp
next
  case (2 ev st u ai_score rest)
  have mono: "admitted_from ev st rest x \<Longrightarrow> admitted_from ev st ((u, ai_score) # rest) x" for x
    by (auto simp: admitted_from_def)
  show ?case
  proof (cases "ai_score < 0.5")
    case True
    from "2.IH"(1) [OF True]
    obtain qs where "snd (process_links ev st rest) = st\<lparr>url_queue := url_queue st @ qs\<rparr>"
        "\<forall>x\<in>set qs. admitted_from ev st rest x"
      by blast
    with True mono show ?thesis by auto
  next
    case high: False
    show ?thesis
    proof (cases "should_process_url ev st u")
      case (Inl e)
      with high show ?thesis by (intro exI [of _ "[]"]) simp
    next
      case (Inr b)
      show ?thesis
      proof (cases b)
        case False
        from "2.IH"(3) [OF high Inr] False
        obtain qs where "snd (process_links ev st rest) = st\<lparr>url_queue := url_queue st @ qs\<rparr>"
            "\<forall>x\<in>set qs. admitted_from ev st rest x"
          by blast
        with high Inr False mono show ?thesis by auto
      next
        case True
        with Inr obtain p where p: "u \<notin> visited_urls st" "urlparse ev u = Inr p"
            "netloc p = base_domain st"
          by (auto simp: should_process_url_def split: if_splits sum.splits)
        let ?d = "depth_base (count_list (path p) CHR ''/'')"
        have d: "calculate_depth_score ev u = Inr ?d"
          using p(2) by (rule depth_score_eq)
        let ?x = "ScoredURL u (calculate_final_score ai_score ?d)"
        let ?st = "add_to_queue st u (calculate_final_score ai_score ?d)"
        have bt: "b = True" using True by simp
        from "2.IH"(2) [OF high Inr bt d]
        obtain qs where qs: "snd (process_links ev ?st rest) = ?st\<lparr>url_queue := url_queue ?st @ qs\<rparr>"
            "\<forall>x\<in>set qs. admitted_from ev ?st rest x"
          by blast
        have x: "admitted_from ev st ((u, ai_score) # rest) ?x"
          unfolding admitted_from_def using high p
          by (intro exI [of _ u] exI [of _ ai_score] exI [of _ p])
             (simp add: calculate_final_score_def)
        have "admitted_from ev ?st rest y \<Longrightarrow> admitted_from ev st ((u, ai_score) # rest) y" for y
          by (auto simp: admitted_from_def add_to_queue_def)
        with qs(2) x have all: "\<forall>y\<in>set (?x # qs). admitted_from ev st ((u, ai_score) # rest) y"
          by auto
        have "snd (process_links ev st ((u, ai_score) # rest))
                = st\<lparr>url_queue := url_queue st @ (?x # qs)\<rparr>"
          using high Inr True d qs(1) by (simp add: add_to_queue_def pq_put_def)
        with all show ?thesis by blast
      qed
    qed
  qed
qed

lemma process_links_queue:
  "snd (process_links ev st ls) = st\<lparr>url_queue := url_queue st @ pushed ev st ls\<rparr>"
  using process_links_state [of ev st ls] by (auto simp: pushed_def)

lemma pushed_admitted: "x \<in> set (pushed ev st ls) \<Longrightarrow> admitted_from ev st ls x"
  using process_links_state [of ev st ls] by (auto simp: pushed_def)



lemma should_process_url_frame:
  "visited_urls st' = visited_urls st \<Longrightarrow> base_domain st' = base_domain st
     \<Longrightarrow> should_process_url ev st' u = should_process_url ev st u"
  by (simp add: should_process_url_def split: sum.splits)

lemma pushed_Nil [simp]: "pushed ev st [] = []"
  by (simp add: pushed_def)

lemma pushed_Cons:
  "pushed ev st ((u, s) # rest) =
     (if s < 0.5 then pushed ev st rest
      else (case should_process_url ev st u of
              Inl e \<Rightarrow> []
            | Inr False \<Rightarrow> pushed ev st rest
            | Inr True \<Rightarrow>
                (case calculate_depth_score ev u of
                   Inl e \<Rightarrow> []
                 | Inr d \<Rightarrow>
                     ScoredURL u (calculate_final_score s d)
                       # pushed ev (add_to_queue st u (calculate_final_score s d)) rest)))"
proof -
  have "pushed ev st ((u, s) # rest)
          = ScoredURL u f # pushed ev (add_to_queue st u f) rest"
    if "snd (process_links ev st ((u, s) # rest)) = snd (process_links ev (add_to_queue st u f) rest)"
    for f
  proof -
    have q: "url_queue (snd (process_links ev (add_to_queue st u f) rest))
            = url_queue st @ ScoredURL u f # pushed ev (add_to_queue st u f) rest"
      by (subst process_links_queue) (simp add: add_to_queue_def pq_put_def)
    have "pushed ev st ((u, s) # rest)
            = drop (length (url_queue st))
                (url_queue (snd (process_links ev (add_to_queue st u f) rest)))"
      unfolding pushed_def that ..
    also have "\<dots> = drop (length (url_queue st))
                (url_queue st @ ScoredURL u f # pushed ev (add_to_queue st u f) rest)"
      by (simp only: q)
    also have "\<dots> = ScoredURL u f # pushed ev (add_to_queue st u f) rest"
      by simp
    finally show ?thesis .
  qed
  then show ?thesis
    by (auto simp: pushed_def split: sum.splits bool.splits)
qed

lemma fst_process_links_Cons:
  "fst (process_links ev st ((u, s) # rest)) =
     (if s < 0.5 then fst (process_links ev st rest)
      else (case should_process_url ev st u of
              Inl e \<Rightarrow> Some e
            | Inr False \<Rightarrow> fst (process_links ev st rest)
            | Inr True \<Rightarrow>
                (case calculate_depth_score ev u of
                   Inl e \<Rightarrow> Some e
                 | Inr d \<Rightarrow>
                     fst (process_links ev (add_to_queue st u (calculate_final_score s d)) rest))))"
  by (auto split: sum.splits bool.splits)

lemma process_links_frame:
  "visited_urls st' = visited_urls st \<Longrightarrow> base_domain st' = base_domain st
     \<Longrightarrow> process_links ev st' ls
           = (fst (process_links ev st ls), st'\<lparr>url_queue := url_queue st' @ pushed ev st ls\<rparr>)"
proof (induction ev st ls arbitrary: st' rule: process_links.induct)
  case (1 ev st)
  show ?case by simp
next
  case (2 ev st u ai_score rest)
  have sp: "should_process_url ev st' u = should_process_url ev st u"
    using "2.prems" by (rule should_process_url_frame)
  show ?case
  proof (cases "ai_score < 0.5")
    case True
    with "2.IH"(1) [OF True "2.prems"] show ?thesis
      by (simp add: pushed_Cons)
  next
    case high: False
    show ?thesis
    proof (cases "should_process_url ev st u")
      case (Inl e)
      with high sp show ?thesis by (simp add: pushed_Cons)
    next
      case (Inr b)
      show ?thesis
      proof (cases b)
        case False
        with "2.IH"(3) [OF high Inr _ "2.prems"] high Inr sp show ?thesis
          by (simp add: pushed_Cons)
      next
        case True
        then have bt: "b = True" by simp
        show ?thesis
        proof (cases "calculate_depth_score ev u")
          case (Inl e)
          with high Inr True sp show ?thesis by (simp add: pushed_Cons)
        next
          case d: (Inr d)
          let ?f = "calculate_final_score ai_score d"
          have "process_links ev (add_to_queue st' u ?f) rest
                  = (fst (process_links ev (add_to_queue st u ?f) rest),
                     (add_to_queue st' u ?f)\<lparr>url_queue := url_queue (add_to_queue st' u ?f)
                         @ pushed ev (add_to_queue st u ?f) rest\<rparr>)"
            using "2.prems" by (intro "2.IH"(2) [OF high Inr bt d]) (simp_all add: add_to_queue_def)
          with high Inr True sp d show ?thesis
            by (simp add: pushed_Cons add_to_queue_def pq_put_def)
        qed
      qed
    qed
  qed
qed

lemma pushed_frame:
  "visited_urls st' = visited_urls st \<Longrightarrow> base_domain st' = base_domain st
     \<Longrightarrow> pushed ev st' ls = pushed ev st ls"
  using process_links_frame [of st' st ev ls] by (simp add: pushed_def)

lemma pushed_add_to_queue [simp]: "pushed ev (add_to_queue st u f) ls = pushed ev st ls"
  by (rule pushed_frame) (simp_all add: add_to_queue_def)

lemma fst_process_links_frame:
  "visited_urls st' = visited_urls st \<Longrightarrow> base_domain st' = base_domain st
     \<Longrightarrow> fst (process_links ev st' ls) = fst (process_links ev st ls)"
  using process_links_frame [of st' st ev ls] by simp

lemma fst_process_links_add_to_queue [simp]:
  "fst (process_links ev (add_to_queue st u f) ls) = fst (process_links ev st ls)"
  by (rule fst_process_links_frame) (simp_all add: add_to_queue_def)

lemma pushed_step:
  "pushed ev st ((u, s) # rest) =
     (if s < 0.5 then pushed ev st rest
      else (case should_process_url ev st u of
              Inl e \<Rightarrow> []
            | Inr False \<Rightarrow> pushed ev st rest
            | Inr True \<Rightarrow>
                (case calculate_depth_score ev u of
                   Inl e \<Rightarrow> []
                 | Inr d \<Rightarrow> ScoredURL u (calculate_final_score s d) # pushed ev st rest)))"
  by (simp add: pushed_Cons split: sum.splits bool.splits)

lemma raised_step:
  "fst (process_links ev st ((u, s) # rest)) =
     (if s < 0.5 then fst (process_links ev st rest)
      else (case should_process_url ev st u of
              Inl e \<Rightarrow> Some e
            | Inr False \<Rightarrow> fst (process_links ev st rest)
            | Inr True \<Rightarrow>
                (case calculate_depth_score ev u of
                   Inl e \<Rightarrow> Some e
                 | Inr d \<Rightarrow> fst (process_links ev st rest))))"
  by (simp add: fst_process_links_Cons del: process_links.simps split: sum.splits bool.splits)

lemma raised_Nil: "fst (process_links ev st []) = None"
  by simp

lemma pushed_append:
  "pushed ev st (xs @ ys) =
     (if fst (process_links ev st xs) = None then pushed ev st xs @ pushed ev st ys
      else pushed ev st xs)"
  by (induction xs)
     (auto simp: pushed_step raised_step raised_Nil
           simp del: process_links.simps split: sum.splits bool.splits)

lemma fst_process_links_append:
  "fst (process_links ev st (xs @ ys)) =
     (if fst (process_links ev st xs) = None then fst (process_links ev st ys)
      else fst (process_links ev st xs))"
  by (induction xs)
     (auto simp: raised_step raised_Nil
           simp del: process_links.simps split: sum.splits bool.splits)

lemma pushed_admits:
  assumes "0.5 \<le> s" "u \<notin> visited_urls st" "urlparse ev u = Inr p" "netloc p = base_domain st"
  shows "pushed ev st ((u, s) # ys)
           = ScoredURL u (0.4 * s + 0.6 * depth_base (count_list (path p) CHR ''/''))
               # pushed ev st ys"
  using assms
  by (simp add: pushed_step should_process_url_def depth_score_eq calculate_final_score_def)

subsection \<open>The priority queue\<close>

lemma pq_get_None: "pq_get q = None \<longleftrightarrow> q = []"
proof (cases q)
  case Nil
  then show ?thesis by simp
next
  case (Cons a l)
  then show ?thesis by (cases "pq_get l") auto
qed

lemma pq_get_mset: "pq_get q = Some (x, q') \<Longrightarrow> mset q = add_mset x (mset q')"
  by (induction q arbitrary: x q') (auto simp: pq_get_None split: option.splits if_splits)

lemma pq_get_set: "pq_get q = Some (x, q') \<Longrightarrow> set q = insert x (set q')"
  using pq_get_mset [of q x q'] by (metis set_mset_add_mset_insert set_mset_mset)

lemma pq_get_highest: "pq_get q = Some (x, q') \<Longrightarrow> y \<in> set q \<Longrightarrow> score y \<le> score x"
proof (induction q arbitrary: x q' y)
  case Nil
  then show ?case by simp
next
  case (Cons a q)
  show ?case
  proof (cases "pq_get q")
    case None
    then have "q = []" by (simp add: pq_get_None)
    with Cons.prems show ?thesis by simp
  next
    case (Some r)
    obtain b q2 where r: "r = (b, q2)" by (cases r)
    have le: "z \<in> set q \<Longrightarrow> score z \<le> score b" for z
      using Cons.IH [of b q2 z] Some r by simp
    have b: "b \<in> set q"
      using pq_get_set [of q b q2] Some r by simp
    show ?thesis
    proof (cases "scored_url_lt b a")
      case True
      with Cons.prems Some r have "x = b" by simp
      with Cons.prems(2) le True show ?thesis
        by (auto simp: scored_url_lt_def)
    next
      case False
      with Cons.prems Some r have "x = a" by simp
      with Cons.prems(2) le [of y] False show ?thesis
        by (auto simp: scored_url_lt_def)
    qed
  qed
qed

lemma pq_get_strict_max:
  assumes "x \<in> set q" "\<And>y. y \<in> set q \<Longrightarrow> y \<noteq> x \<Longrightarrow> score y < score x"
  shows "\<exists>q'. pq_get q = Some (x, q')"
proof -
  from assms(1) have "q \<noteq> []" by auto
  then obtain z q' where z: "pq_get q = Some (z, q')"
    using pq_get_None [of q] by (cases "pq_get q") auto
  have "z \<in> set q" using pq_get_set [OF z] by simp
  moreover have "score x \<le> score z" using pq_get_highest [OF z assms(1)] .
  ultimately have "z = x" using assms(2) [of z] by force
  with z show ?thesis by simp
qed

subsection \<open>The new links\<close>

lemma set_new_links: "set (new_links ev n a c) = set a - set c"
  by (auto simp: new_links_def)

lemma distinct_new_links: "distinct (new_links ev n a c)"
  by (simp add: new_links_def)

lemma new_links_Nil [simp]: "new_links ev n [] c = []"
  by (simp add: new_links_def)

subsection \<open>The body of the loop\<close>

lemma process_new_urls_eq:
  "process_new_urls ev st =
     (fst (process_links ev st (current_url_links_with_scores st)),
      st\<lparr>url_queue := url_queue st @ pushed ev st (current_url_links_with_scores st)\<rparr>)"
  unfolding process_new_urls_def
  by (rule process_links_frame) simp_all

lemma try_body_Raised:
  "sc n u = (cbs, Raised e) \<Longrightarrow> try_body ev sc n st u = (Some e, run_callbacks ev st cbs)"
  by (simp add: try_body_def)

lemma try_body_Returned:
  assumes "sc n u = (cbs, Returned)"
  shows "try_body ev sc n st u =
     (let st1 = run_callbacks ev st cbs;
          nl = new_links ev n (all_links_with_scores st1) (current_url_links_with_scores st1);
          r = fst (process_links ev st nl)
      in (r, st1\<lparr>current_url_links_with_scores := nl,
                 url_queue := url_queue st @ pushed ev st nl,
                 visited_urls := (if r = None then insert u (visited_urls st)
                                  else visited_urls st)\<rparr>))"
proof -
  let ?st1 = "run_callbacks ev st cbs"
  let ?nl = "new_links ev n (all_links_with_scores ?st1) (current_url_links_with_scores ?st1)"
  let ?st2 = "?st1\<lparr>current_url_links_with_scores := ?nl\<rparr>"
  have f: "visited_urls ?st2 = visited_urls st" "base_domain ?st2 = base_domain st"
    "url_queue ?st2 = url_queue st"
    by (simp_all add: run_callbacks_eq)
  have "process_new_urls ev ?st2
          = (fst (process_links ev st ?nl), ?st2\<lparr>url_queue := url_queue st @ pushed ev st ?nl\<rparr>)"
    using process_links_frame [OF f(1,2), of ev ?nl] f(3)
    by (simp add: process_new_urls_def)
  then show ?thesis
    using assms f by (simp add: try_body_def Let_def split: option.splits)
qed

lemma iteration_cases:
  assumes "iteration ev sc (h, st) = Some (h', st')"
  obtains (skip) x q where "pq_get (url_queue st) = Some (x, q)" "url x \<in> visited_urls st"
      "h' = h" "st' = st\<lparr>url_queue := q\<rparr>"
  | (scrape) x q r where "pq_get (url_queue st) = Some (x, q)" "url x \<notin> visited_urls st"
      "try_body ev sc (length h) (st\<lparr>url_queue := q\<rparr>) (url x) = (r, st')"
      "h' = h @ [(url x, sc (length h) (url x), r)]"
proof -
  from assms obtain x q where g: "pq_get (url_queue st) = Some (x, q)"
    by (cases "pq_get (url_queue st)") (auto simp: iteration_def)
  show thesis
  proof (cases "url x \<in> visited_urls st")
    case True
    with assms g have "h' = h" "st' = st\<lparr>url_queue := q\<rparr>"
      by (simp_all add: iteration_def)
    with g True show thesis by (intro skip)
  next
    case False
    obtain r s where t: "try_body ev sc (length h) (st\<lparr>url_queue := q\<rparr>) (url x) = (r, s)"
      by (cases "try_body ev sc (length h) (st\<lparr>url_queue := q\<rparr>) (url x)")
    with assms g False have "h' = h @ [(url x, sc (length h) (url x), r)]" "st' = s"
      by (simp_all add: iteration_def Let_def)
    with g False t show thesis by (intro scrape) simp_all
  qed
qed

lemma iteration_Some:
  "url_queue st \<noteq> [] \<Longrightarrow> \<exists>c'. iteration ev sc (h, st) = Some c'"
  using pq_get_None [of "url_queue st"]
  by (auto simp: iteration_def Let_def split: option.splits prod.splits)

subsection \<open>The loop\<close>

lemma crawl_steps_invariant:
  assumes "P c" and step: "\<And>c c'. P c \<Longrightarrow> iteration ev sc c = Some c' \<Longrightarrow> P c'"
  shows "P (crawl_steps ev sc k c)"
  using assms(1)
proof (induction k arbitrary: c)
  case 0
  then show ?case by simp
next
  case (Suc k)
  then show ?case by (auto split: option.splits intro: step)
qed

lemma crawl_steps_empty:
  "pq_empty (url_queue (snd c)) \<Longrightarrow> crawl_steps ev sc k c = c"
  by (cases k) simp_all

text \<open>
  What the loop returns is the state after some number of iterations, with an empty
  queue: a property of every state of \<open>crawl_steps\<close> holds of the result of the loop.
\<close>

lemma crawl_loop_steps:
  "crawl_loop ev sc c = Some c'
     \<Longrightarrow> \<exists>k. crawl_steps ev sc k c = c' \<and> pq_empty (url_queue (snd c'))"
proof (induction rule: crawl_loop.raw_induct [rotated 1, consumes 1])
  case (1 loop ev sc c c')
  show ?case
  proof (cases "pq_empty (url_queue (snd c))")
    case True
    with 1(2) have "c' = c" by simp
    with True show ?thesis by (intro exI [of _ 0]) simp
  next
    case False
    with 1(2) obtain c1 where c1: "iteration ev sc c = Some c1" "loop ev sc c1 = Some c'"
      by (auto split: option.splits)
    from 1(1) [OF c1(2)] obtain k where "crawl_steps ev sc k c1 = c'"
        "pq_empty (url_queue (snd c'))"
      by blast
    with False c1(1) show ?thesis by (intro exI [of _ "Suc k"]) simp
  qed
qed

lemma crawl_loop_empty:
  "pq_empty (url_queue (snd c)) \<Longrightarrow> crawl_loop ev sc c = Some c"
  by (subst crawl_loop.simps) simp

lemma crawl_loop_step:
  "\<not> pq_empty (url_queue (snd c)) \<Longrightarrow> iteration ev sc c = Some c'
     \<Longrightarrow> crawl_loop ev sc c = crawl_loop ev sc c'"
  by (subst crawl_loop.simps) simp

subsection \<open>The registry during a crawl\<close>

lemma performed_snoc: "performed (h @ [(u, b, r)]) = performed h @ fst b"
  by (simp add: performed_def)

lemma poi_list_process_links [simp]:
  "poi_list (snd (process_links ev st ls)) = poi_list st"
  by (simp add: process_links_queue)

lemma try_body_poi_list:
  "try_body ev sc n st u = (r, st')
     \<Longrightarrow> poi_list st' = poi_list st ++ map_of (rev (accepted_pois (fst (sc n u))))"
proof (cases "sc n u")
  case (Pair cbs out)
  assume t: "try_body ev sc n st u = (r, st')"
  show ?thesis
  proof (cases out)
    case Returned
    with Pair t show ?thesis
      using try_body_Returned [of sc n u cbs ev st]
      by (auto simp: Let_def run_callbacks_eq)
  next
    case (Raised e)
    with Pair t show ?thesis
      using try_body_Raised [of sc n u cbs e ev st]
      by (auto simp: run_callbacks_eq)
  qed
qed

lemma iteration_poi_list:
  assumes "iteration ev sc (h, st) = Some (h', st')"
    and "poi_list st = map_of (rev (accepted_pois (performed h)))"
  shows "poi_list st' = map_of (rev (accepted_pois (performed h')))"
  using assms(1)
proof (cases rule: iteration_cases)
  case (skip x q)
  with assms(2) show ?thesis by simp
next
  case (scrape x q r)
  from try_body_poi_list [OF scrape(3)] assms(2) scrape(4) show ?thesis
    by (simp add: performed_snoc accepted_pois_append)
qed

lemma crawl_registry:
  assumes "poi_list st0 = Map.empty"
  shows "poi_list (snd (crawl_steps ev sc k (crawl_start st0)))
           = map_of (rev (accepted_pois (performed (fst (crawl_steps ev sc k (crawl_start st0))))))"
proof (rule crawl_steps_invariant
    [where P = "\<lambda>c. poi_list (snd c) = map_of (rev (accepted_pois (performed (fst c))))"])
  show "poi_list (snd (crawl_start st0))
          = map_of (rev (accepted_pois (performed (fst (crawl_start st0)))))"
    using assms by (simp add: crawl_start_def add_to_queue_def performed_def)
next
  fix c c'
  assume "poi_list (snd c) = map_of (rev (accepted_pois (performed (fst c))))"
    and "iteration ev sc c = Some c'"
  then show "poi_list (snd c') = map_of (rev (accepted_pois (performed (fst c'))))"
    using iteration_poi_list [of ev sc "fst c" "snd c" "fst c'" "snd c'"] by simp
qed

lemma accepted_pois_origin:
  "(key, entry) \<in> set (accepted_pois cbs)
     \<Longrightarrow> \<exists>p verdict. RegisterPoi p (Inr verdict) \<in> set cbs \<and> is_valid verdict
           \<and> name p = key \<and> entry = (description p, category p, location p)"
  by (induction cbs rule: accepted_pois.induct) (auto split: if_splits)

subsection \<open>Evaluation of the examples\<close>

lemmas crawl_simps = crawl_start_def add_to_queue_def pq_put_def pq_empty_def iteration_def
  try_body_def run_callbacks_def register_link_def register_poi_def new_links_def
  process_new_urls_def should_process_url_def calculate_depth_score_def
  calculate_final_score_def scored_url_lt_def Let_def parse_simps

lemma beach_crawl:
  "crawl_steps example_env beach_scraper (Suc 0) (crawl_start example_manager)
     = ([(''https://e.com'', beach_scraper 0 ''https://e.com'', None)],
        example_manager\<lparr>visited_urls := {''https://e.com''},
          poi_list := [''Beach'' \<mapsto> (''Sand'', ''Nature'', None)]\<rparr>)"
  by (simp add: crawl_simps example_manager_def beach_scraper_def beach_def verdict_def)

lemma crawl_steps_loop:
  "crawl_steps ev sc k c = c' \<Longrightarrow> pq_empty (url_queue (snd c'))
     \<Longrightarrow> crawl_loop ev sc c = Some c'"
proof (induction k arbitrary: c)
  case 0
  then show ?case by (simp add: crawl_loop_empty)
next
  case (Suc k)
  show ?case
  proof (cases "pq_empty (url_queue (snd c))")
    case True
    with Suc.prems show ?thesis by (simp add: crawl_loop_empty)
  next
    case False
    then obtain c1 where c1: "iteration ev sc c = Some c1"
      using iteration_Some [of "snd c" ev sc "fst c"] by (auto simp: pq_empty_def)
    with False Suc.prems have "crawl_steps ev sc k c1 = c'" by simp
    then have "crawl_loop ev sc c1 = Some c'"
      using Suc.prems(2) by (rule Suc.IH)
    with False c1 show ?thesis by (simp add: crawl_loop_step)
  qed
qed

subsection \<open>What an iteration leaves unchanged\<close>

lemma try_body_frame:
  assumes "try_body ev sc n st u = (r, st')"
  shows "base_url st' = base_url st" "base_domain st' = base_domain st"
    "\<exists>ls. url_queue st' = url_queue st @ pushed ev st ls"
    "visited_urls st' = (if r = None then insert u (visited_urls st) else visited_urls st)"
proof -
  obtain cbs out where sc: "sc n u = (cbs, out)" by (cases "sc n u")
  have "base_url st' = base_url st \<and> base_domain st' = base_domain st
      \<and> (\<exists>ls. url_queue st' = url_queue st @ pushed ev st ls)
      \<and> visited_urls st' = (if r = None then insert u (visited_urls st) else visited_urls st)"
  proof (cases out)
    case Returned
    with sc assms show ?thesis
      using try_body_Returned [of sc n u cbs ev st]
      by (auto simp: Let_def run_callbacks_eq)
  next
    case (Raised e)
    with sc assms have "r = Some e" "st' = run_callbacks ev st cbs"
      using try_body_Raised [of sc n u cbs e ev st] by simp_all
    then show ?thesis
      by (auto simp: run_callbacks_eq intro: exI [of _ "[]"])
  qed
  then show "base_url st' = base_url st" "base_domain st' = base_domain st"
    "\<exists>ls. url_queue st' = url_queue st @ pushed ev st ls"
    "visited_urls st' = (if r = None then insert u (visited_urls st) else visited_urls st)"
    by blast+
qed

lemma pushed_same_domain:
  assumes "urlparse ev u = Inr p" "netloc p \<noteq> base_domain st"
  shows "u \<notin> url ` set (pushed ev st ls)"
proof
  assume "u \<in> url ` set (pushed ev st ls)"
  then obtain x where x: "x \<in> set (pushed ev st ls)" "url x = u" by auto
  from pushed_admitted [OF x(1)] x(2) assms show False
    by (auto simp: admitted_from_def)
qed

lemma iteration_foreign_host:
  assumes "iteration ev sc (h, st) = Some (h', st')"
    and "urlparse ev u = Inr p" "netloc p \<noteq> base_domain st"
    and "u \<notin> url ` set (url_queue st)"
  shows "base_domain st' = base_domain st \<and> u \<notin> url ` set (url_queue st')"
  using assms(1)
proof (cases rule: iteration_cases)
  case (skip x q)
  with assms(4) pq_get_set [OF skip(1)] show ?thesis by auto
next
  case (scrape x q r)
  let ?st = "st\<lparr>url_queue := q\<rparr>"
  from try_body_frame(2,3) [OF scrape(3)]
  obtain ls where f: "base_domain st' = base_domain st" "url_queue st' = q @ pushed ev ?st ls"
    by auto
  have "u \<notin> url ` set (pushed ev ?st ls)"
    using assms(2,3) by (intro pushed_same_domain [of ev u p]) simp_all
  moreover have "u \<notin> url ` set q"
    using assms(4) pq_get_set [OF scrape(1)] by auto
  ultimately show ?thesis using f by auto
qed

lemma crawl_foreign_host:
  assumes "init ev seed = Inr st0" "urlparse ev u = Inr p" "netloc p \<noteq> base_domain st0"
  shows "u \<notin> url ` set (url_queue (snd (crawl_steps ev sc k (crawl_start st0))))"
proof -
  let ?P = "\<lambda>c. base_domain (snd c) = base_domain st0 \<and> u \<notin> url ` set (url_queue (snd c))"
  have "?P (crawl_steps ev sc k (crawl_start st0))"
  proof (rule crawl_steps_invariant [where P = ?P])
    from assms(1) obtain p0 where p0: "urlparse ev seed = Inr p0"
        "base_domain st0 = netloc p0" "base_url st0 = seed" "url_queue st0 = []"
      by (auto simp: init_def split: sum.splits)
    with assms(2,3) have "u \<noteq> seed" by auto
    with p0 show "?P (crawl_start st0)"
      by (simp add: crawl_start_def add_to_queue_def pq_put_def)
  next
    fix c c'
    assume "?P c" "iteration ev sc c = Some c'"
    then show "?P c'"
      using iteration_foreign_host [of ev sc "fst c" "snd c" "fst c'" "snd c'" u p] assms(2,3)
      by simp
  qed
  then show ?thesis by simp
qed

lemma links_crawl:
  "crawl_steps example_env links_scraper (Suc 0) (crawl_start example_manager)
     = ([(''https://e.com'', links_scraper 0 ''https://e.com'', None)],
        example_manager\<lparr>visited_urls := {''https://e.com''},
          url_queue := [ScoredURL ''https://e.com/g/p'' 0.7],
          all_links_with_scores :=
            [(''https://x.org/b'', 1.0), (''https://e.com/c'', 0.49), (''https://e.com/g/p'', 1.0)],
          current_url_links_with_scores :=
            [(''https://x.org/b'', 1.0), (''https://e.com/c'', 0.49), (''https://e.com/g/p'', 1.0)]\<rparr>)"
  by (simp add: crawl_simps example_manager_def links_scraper_def)

lemma parse_foreign:
  "urlparse example_env ''https://x.org/b'' = Inr \<lparr>netloc = ''x.org'', path = ''/b''\<rparr>"
  by (simp add: parse_simps)

lemma init_example: "init example_env ''https://e.com'' = Inr example_manager"
  by (simp add: init_def example_manager_def parse_simps)



lemma parse_bad: "urlparse example_env ''http://[bad'' = Inl ValueError"
  by (simp add: parse_simps)


lemma try_body_queue:
  assumes "sc n cu = (cbs, Returned)" "try_body ev sc n st cu = (r, st')"
  shows "url_queue st' = url_queue st @ pushed ev st (current_url_links_with_scores st')"
  using assms try_body_Returned [of sc n cu cbs ev st]
  by (auto simp: Let_def)


lemma init_Inr:
  "init ev seed = Inr st0
     \<Longrightarrow> \<exists>p. urlparse ev seed = Inr p
           \<and> st0 = \<lparr>base_url = seed, base_domain = netloc p, visited_urls = {},
                   url_queue = [], poi_list = Map.empty, all_links_with_scores = [],
                   current_url_links_with_scores = []\<rparr>"
  by (auto simp: init_def split: sum.splits)

lemma empty_page_iteration:
  assumes "init ev seed = Inr st0" "sc 0 seed = ([], Returned)"
  shows "iteration ev sc (crawl_start st0)
           = Some ([(seed, ([], Returned), None)], st0\<lparr>visited_urls := {seed}\<rparr>)"
proof -
  from init_Inr [OF assms(1)] obtain p :: parse_result where
    st0: "st0 = \<lparr>base_url = seed, base_domain = netloc p, visited_urls = {},
                   url_queue = [], poi_list = Map.empty, all_links_with_scores = [],
                   current_url_links_with_scores = []\<rparr>"
    by blast
  have t: "try_body ev sc 0 st0 seed = (None, st0\<lparr>visited_urls := {seed}\<rparr>)"
    using assms(2) by (simp add: try_body_def run_callbacks_def process_new_urls_def st0)
  show ?thesis
    unfolding iteration_def crawl_start_def add_to_queue_def pq_put_def
    using t assms(2) by (simp add: st0)
qed

subsection \<open>Completed iterations\<close>

lemma completed_urls_snoc:
  "completed_urls (h @ [(u, b, r)]) = completed_urls h @ (if r = None then [u] else [])"
  by (simp add: completed_urls_def)

lemma never_rescraped_snoc:
  "never_rescraped (h @ [(u, b, r)])
     \<longleftrightarrow> never_rescraped h \<and> u \<notin> set (completed_urls h)"
  by (induction h rule: never_rescraped.induct) (auto simp: completed_urls_def)

lemma iteration_completed:
  assumes "iteration ev sc (h, st) = Some (h', st')"
    and "visited_urls st = set (completed_urls h)" "distinct (completed_urls h)"
      "never_rescraped h"
  shows "visited_urls st' = set (completed_urls h') \<and> distinct (completed_urls h')
      \<and> never_rescraped h'"
  using assms(1)
proof (cases rule: iteration_cases)
  case (skip x q)
  with assms(2-4) show ?thesis by simp
next
  case (scrape x q r)
  from try_body_frame(4) [OF scrape(3)]
  have "visited_urls st' = (if r = None then insert (url x) (visited_urls st) else visited_urls st)"
    by simp
  with scrape(2,4) assms(2-4) show ?thesis
    by (cases r) (simp_all add: completed_urls_snoc never_rescraped_snoc)
qed

lemma crawl_completed:
  assumes "visited_urls st0 = {}"
  shows "visited_urls (snd (crawl_steps ev sc k (crawl_start st0)))
           = set (completed_urls (fst (crawl_steps ev sc k (crawl_start st0))))
       \<and> distinct (completed_urls (fst (crawl_steps ev sc k (crawl_start st0))))
       \<and> never_rescraped (fst (crawl_steps ev sc k (crawl_start st0)))"
proof (rule crawl_steps_invariant
    [where P = "\<lambda>c. visited_urls (snd c) = set (completed_urls (fst c))
                  \<and> distinct (completed_urls (fst c)) \<and> never_rescraped (fst c)"])
  show "visited_urls (snd (crawl_start st0)) = set (completed_urls (fst (crawl_start st0)))
      \<and> distinct (completed_urls (fst (crawl_start st0)))
      \<and> never_rescraped (fst (crawl_start st0))"
    using assms by (simp add: crawl_start_def add_to_queue_def completed_urls_def)
next
  fix c c'
  assume "visited_urls (snd c) = set (completed_urls (fst c))
      \<and> distinct (completed_urls (fst c)) \<and> never_rescraped (fst c)"
    and "iteration ev sc c = Some c'"
  then show "visited_urls (snd c') = set (completed_urls (fst c'))
      \<and> distinct (completed_urls (fst c')) \<and> never_rescraped (fst c')"
    using iteration_completed [of ev sc "fst c" "snd c" "fst c'" "snd c'"] by simp
qed

lemma retry_crawl:
  "crawl_steps example_env retry_scraper (Suc (Suc (Suc 0))) (crawl_start example_manager)
     = ([(''https://e.com'',
          ([RegisterLink ''https://e.com/a'' 0.9, RegisterLink ''https://e.com/a'' 0.8], Returned),
          None),
         (''https://e.com/a'', ([RegisterLink ''http://[bad'' 0.9], Returned), Some ValueError),
         (''https://e.com/a'', ([], Returned), None)],
        example_manager\<lparr>visited_urls := {''https://e.com/a'', ''https://e.com''},
          url_queue := [ScoredURL ''https://e.com/a'' 0.54, ScoredURL ''https://e.com/a'' 0.5],
          all_links_with_scores :=
            [(''https://e.com/a'', 0.9), (''https://e.com/a'', 0.8), (''http://[bad'', 0.9)],
          current_url_links_with_scores :=
            [(''https://e.com/a'', 0.9), (''https://e.com/a'', 0.8)]\<rparr>)"
  by (simp add: crawl_simps example_manager_def retry_scraper_def)

subsection \<open>The link log and the list of new links\<close>

lemma scraped_urls_snoc:
  "scraped_urls (h @ [(u, b, r)]) = scraped_urls h @ (if snd b = Returned then [u] else [])"
  by (simp add: scraped_urls_def)

lemma try_body_log:
  assumes "sc n u = (cbs, out)" "try_body ev sc n st u = (r, st')"
  shows "all_links_with_scores st' = all_links_with_scores st @ reported_links cbs"
proof (cases out)
  case Returned
  with assms show ?thesis
    using try_body_Returned [of sc n u cbs ev st] by (auto simp: Let_def run_callbacks_eq)
next
  case (Raised e)
  with assms show ?thesis
    using try_body_Raised [of sc n u cbs e ev st] by (auto simp: run_callbacks_eq)
qed

lemma try_body_new_links:
  assumes "sc n u = (cbs, Returned)" "try_body ev sc n st u = (r, st')"
  shows "current_url_links_with_scores st'
           = new_links ev n (all_links_with_scores st') (current_url_links_with_scores st)"
    and "r = fst (process_links ev st (current_url_links_with_scores st'))"
  using assms try_body_Returned [of sc n u cbs ev st]
  by (auto simp: Let_def run_callbacks_eq)

lemma quiet_iteration:
  assumes "iteration ev sc (h, st) = Some (h', st')" "scraped_urls h' = scraped_urls h"
  shows "current_url_links_with_scores st' = current_url_links_with_scores st
       \<and> (\<exists>ls. all_links_with_scores st' = all_links_with_scores st @ ls)"
  using assms(1)
proof (cases rule: iteration_cases)
  case (skip x q)
  then show ?thesis by simp
next
  case (scrape x q r)
  obtain cbs out where sc: "sc (length h) (url x) = (cbs, out)"
    by (cases "sc (length h) (url x)")
  with scrape(4) assms(2) have "out \<noteq> Returned"
    by (auto simp: scraped_urls_snoc)
  then obtain e where "out = Raised e" by (cases out) auto
  with sc scrape(3) have "st' = run_callbacks ev (st\<lparr>url_queue := q\<rparr>) cbs"
    using try_body_Raised [of sc "length h" "url x" cbs e ev "st\<lparr>url_queue := q\<rparr>"] by simp
  then show ?thesis by (simp add: run_callbacks_eq)
qed

lemma pushed_member:
  assumes "fst (process_links ev st ls) = None" "(u, s) \<in> set ls" "0.5 \<le> s"
    "u \<notin> visited_urls st" "urlparse ev u = Inr p" "netloc p = base_domain st"
  shows "ScoredURL u (0.4 * s + 0.6 * depth_base (count_list (path p) CHR ''/''))
           \<in> set (pushed ev st ls)"
proof -
  from assms(2) obtain xs ys where ls: "ls = xs @ (u, s) # ys"
    by (auto dest: split_list)
  with assms(1) have "fst (process_links ev st xs) = None"
    by (auto simp: fst_process_links_append split: if_splits)
  then have "pushed ev st ls = pushed ev st xs @ pushed ev st ((u, s) # ys)"
    unfolding ls by (simp add: pushed_append)
  with pushed_admits [OF assms(3-6), of ys] show ?thesis by simp
qed

lemma recover_failure:
  "try_body example_env recover_scraper 1 before_failure ''https://e.com/a''
     = (Some (Exception ''timeout''), after_failure)"
  by (simp add: try_body_def run_callbacks_def register_link_def recover_scraper_def
        before_failure_def after_failure_def example_manager_def)

lemma recover_success:
  "try_body example_env recover_scraper 2 (after_failure\<lparr>url_queue := []\<rparr>)
      ''https://e.com/b'' = (None, after_recovery)"
  by (simp add: crawl_simps recover_scraper_def before_failure_def after_failure_def
        after_recovery_def example_manager_def)

lemma recover_iteration:
  "iteration example_env recover_scraper
      ([(''https://e.com'', recover_scraper 0 ''https://e.com'', None)],
       before_failure\<lparr>url_queue := [ScoredURL ''https://e.com/a'' 0.54,
                                       ScoredURL ''https://e.com/b'' 0.5]\<rparr>)
     = Some ([(''https://e.com'', recover_scraper 0 ''https://e.com'', None),
              (''https://e.com/a'', recover_scraper 1 ''https://e.com/a'',
               Some (Exception ''timeout''))],
             after_failure)"
  by (simp add: crawl_simps recover_scraper_def before_failure_def after_failure_def
        example_manager_def)

lemma parse_d:
  "urlparse example_env ''https://e.com/d'' = Inr \<lparr>netloc = ''e.com'', path = ''/d''\<rparr>"
  by (simp add: parse_simps)

lemma repeat_crawl:
  "crawl_steps example_env repeat_scraper (Suc (Suc (Suc 0))) (crawl_start example_manager)
     = ([(''https://e.com'',
          ([RegisterLink ''https://e.com/a'' 0.9, RegisterLink ''https://e.com/b'' 0.8], Returned),
          None),
         (''https://e.com/a'',
          ([RegisterLink ''https://e.com/b'' 0.8], Raised (Exception ''timeout'')),
          Some (Exception ''timeout'')),
         (''https://e.com/b'', ([], Returned), None)],
        example_manager\<lparr>visited_urls := {''https://e.com/b'', ''https://e.com''},
          all_links_with_scores :=
            [(''https://e.com/a'', 0.9), (''https://e.com/b'', 0.8), (''https://e.com/b'', 0.8)],
          current_url_links_with_scores := []\<rparr>)"
  by (simp add: crawl_simps example_manager_def repeat_scraper_def)

lemma two_links_second:
  "crawl_steps example_env two_links (Suc (Suc 0)) (crawl_start example_manager)
     = ([(''https://e.com'',
          ([RegisterLink ''https://e.com/a'' 0.9, RegisterLink ''https://e.com/b'' 0.9], Returned),
          None),
         (''https://e.com/a'', ([], Returned), None)],
        example_manager\<lparr>visited_urls := {''https://e.com/a'', ''https://e.com''},
          url_queue := [ScoredURL ''https://e.com/b'' 0.54],
          all_links_with_scores := [(''https://e.com/a'', 0.9), (''https://e.com/b'', 0.9)],
          current_url_links_with_scores := []\<rparr>)"
  by (simp add: crawl_simps example_manager_def two_links_def)

lemma two_links_third:
  "crawl_steps example_env two_links (Suc (Suc (Suc 0))) (crawl_start example_manager)
     = ([(''https://e.com'',
          ([RegisterLink ''https://e.com/a'' 0.9, RegisterLink ''https://e.com/b'' 0.9], Returned),
          None),
         (''https://e.com/a'', ([], Returned), None),
         (''https://e.com/b'', ([], Returned), None)],
        example_manager\<lparr>
          visited_urls := {''https://e.com/b'', ''https://e.com/a'', ''https://e.com''},
          url_queue := [ScoredURL ''https://e.com/b'' 0.54],
          all_links_with_scores := [(''https://e.com/a'', 0.9), (''https://e.com/b'', 0.9)],
          current_url_links_with_scores :=
            [(''https://e.com/a'', 0.9), (''https://e.com/b'', 0.9)]\<rparr>)"
  by (simp add: crawl_simps example_manager_def two_links_def)

section \<open>C1: the links considered in an iteration\<close>

text \<open>
  C1 says that the pairs considered in an iteration are those of the link log that
  were not in the log at the end of the previous iteration, so that a pair is never
  considered a second time. This does not hold of the code. The list of new links is
  the difference of the set of the log and the set of the list that the previous
  computation left, and that list is the previous difference, not the log as it
  stood then. On the crawl of
  \<open>two_links\<close> the third iteration, for the page \<open>b\<close>, reports nothing: the log is the
  one the second iteration left. By the claim no pair is considered. The code
  considers both pairs of the first iteration again and puts \<open>b\<close>, which is not yet
  marked visited, on the queue a second time.
\<close>

theorem old_links_considered_again:
  "crawl_steps example_env two_links (Suc (Suc 0)) (crawl_start example_manager)
     = ([(''https://e.com'',
          ([RegisterLink ''https://e.com/a'' 0.9, RegisterLink ''https://e.com/b'' 0.9], Returned),
          None),
         (''https://e.com/a'', ([], Returned), None)],
        example_manager\<lparr>visited_urls := {''https://e.com/a'', ''https://e.com''},
          url_queue := [ScoredURL ''https://e.com/b'' 0.54],
          all_links_with_scores := [(''https://e.com/a'', 0.9), (''https://e.com/b'', 0.9)],
          current_url_links_with_scores := []\<rparr>)
   \<and> crawl_steps example_env two_links (Suc (Suc (Suc 0))) (crawl_start example_manager)
     = ([(''https://e.com'',
          ([RegisterLink ''https://e.com/a'' 0.9, RegisterLink ''https://e.com/b'' 0.9], Returned),
          None),
         (''https://e.com/a'', ([], Returned), None),
         (''https://e.com/b'', ([], Returned), None)],
        example_manager\<lparr>
          visited_urls := {''https://e.com/b'', ''https://e.com/a'', ''https://e.com''},
          url_queue := [ScoredURL ''https://e.com/b'' 0.54],
          all_links_with_scores := [(''https://e.com/a'', 0.9), (''https://e.com/b'', 0.9)],
          current_url_links_with_scores :=
            [(''https://e.com/a'', 0.9), (''https://e.com/b'', 0.9)]\<rparr>)
   \<and> set (all_links_with_scores (snd (crawl_steps example_env two_links (Suc (Suc (Suc 0)))
                                         (crawl_start example_manager))))
       - set (all_links_with_scores (snd (crawl_steps example_env two_links (Suc (Suc 0))
                                         (crawl_start example_manager)))) = {}
   \<and> set (current_url_links_with_scores (snd (crawl_steps example_env two_links
             (Suc (Suc (Suc 0))) (crawl_start example_manager))))
       = {(''https://e.com/a'', 0.9), (''https://e.com/b'', 0.9)}"
proof -
  have "set (all_links_with_scores (snd (crawl_steps example_env two_links (Suc (Suc (Suc 0)))
                                         (crawl_start example_manager))))
       - set (all_links_with_scores (snd (crawl_steps example_env two_links (Suc (Suc 0))
                                         (crawl_start example_manager)))) = {}"
    unfolding two_links_second two_links_third by simp
  moreover have "set (current_url_links_with_scores (snd (crawl_steps example_env two_links
             (Suc (Suc (Suc 0))) (crawl_start example_manager))))
       = {(''https://e.com/a'', 0.9), (''https://e.com/b'', 0.9)}"
    unfolding two_links_third by simp
  ultimately show ?thesis
    using two_links_second two_links_third by (intro conjI) (simp_all only: simp_thms)
qed

section \<open>C2: an exception of the scraper\<close>



section \<open>C3: the registry gate\<close>

text \<open>
  C3. With a verdict that is not valid, \<open>register_poi\<close> leaves the manager, and so
  the registry, unchanged and returns the rejection message, which prints the
  candidate's name and description. With a valid verdict it stores the candidate's
  description, category and location under its name, overwriting an earlier entry,
  and returns the confirmation. Consequently, at every moment of a crawl that starts
  with an empty registry, the registry is the map of the registrations accepted so
  far, a later one overriding an earlier one of the same name: each of its entries
  was registered under a verdict with \<open>is_valid\<close>.
\<close>

theorem register_poi_gate:
  "(validate (name poi) (description poi) (category poi) (location poi) = Inr r
      \<and> \<not> is_valid r
    \<longrightarrow> register_poi ev validate st poi
          = Inr (''POI validation failed for: ('' @ py_repr ev (name poi) @ '', ''
                   @ py_repr ev (description poi) @ '')'', st))
   \<and> (validate (name poi) (description poi) (category poi) (location poi) = Inr r
      \<and> is_valid r
    \<longrightarrow> register_poi ev validate st poi
          = Inr (''POI registered: '' @ name poi @ '', Category: '' @ category poi
                   @ '', Location: '' @ (case location poi of None \<Rightarrow> ''None'' | Some l \<Rightarrow> l),
                 st\<lparr>poi_list := (poi_list st)
                      (name poi \<mapsto> (description poi, category poi, location poi))\<rparr>))
   \<and> (poi_list st0 = Map.empty \<and> crawl_steps ev sc k (crawl_start st0) = (h, st')
    \<longrightarrow> poi_list st' = map_of (rev (accepted_pois (performed h))))
   \<and> (poi_list st0 = Map.empty \<and> crawl_steps ev sc k (crawl_start st0) = (h, st')
        \<and> poi_list st' key = Some entry
    \<longrightarrow> (\<exists>p verdict. RegisterPoi p (Inr verdict) \<in> set (performed h)
           \<and> is_valid verdict \<and> name p = key
           \<and> entry = (description p, category p, location p)))"
proof (intro conjI impI)
  assume "validate (name poi) (description poi) (category poi) (location poi) = Inr r
            \<and> \<not> is_valid r"
  then show "register_poi ev validate st poi
             = Inr (''POI validation failed for: ('' @ py_repr ev (name poi) @ '', ''
                      @ py_repr ev (description poi) @ '')'', st)"
    by (simp add: register_poi_def)
next
  assume "validate (name poi) (description poi) (category poi) (location poi) = Inr r
            \<and> is_valid r"
  then show "register_poi ev validate st poi
          = Inr (''POI registered: '' @ name poi @ '', Category: '' @ category poi
                   @ '', Location: '' @ (case location poi of None \<Rightarrow> ''None'' | Some l \<Rightarrow> l),
                 st\<lparr>poi_list := (poi_list st)
                      (name poi \<mapsto> (description poi, category poi, location poi))\<rparr>)"
    by (simp add: register_poi_def)
next
  assume "poi_list st0 = Map.empty \<and> crawl_steps ev sc k (crawl_start st0) = (h, st')"
  then show "poi_list st' = map_of (rev (accepted_pois (performed h)))"
    using crawl_registry [of st0 ev sc k] by simp
next
  assume a: "poi_list st0 = Map.empty \<and> crawl_steps ev sc k (crawl_start st0) = (h, st')
        \<and> poi_list st' key = Some entry"
  then have "poi_list st' = map_of (rev (accepted_pois (performed h)))"
    using crawl_registry [of st0 ev sc k] by simp
  with a have "(key, entry) \<in> set (accepted_pois (performed h))"
    by (auto dest: map_of_SomeD)
  then show "\<exists>p verdict. RegisterPoi p (Inr verdict) \<in> set (performed h)
                      \<and> is_valid verdict \<and> name p = key
                      \<and> entry = (description p, category p, location p)"
    by (rule accepted_pois_origin)
qed

text \<open>
  The theorem for the candidate \<open>Beach\<close>: rejected, the manager is unchanged;
  accepted, it is stored; and after one iteration of a crawl whose scraper registers
  \<open>Beach\<close> (accepted) and \<open>Tips\<close> (rejected) the registry holds \<open>Beach\<close> only.
\<close>

theorem register_poi_gate_witness:
  "(\<lambda>_ _ _ _. Inr (verdict False)) (name beach) (description beach) (category beach)
        (location beach) = (Inr (verdict False) :: error + poi_validation_result)
   \<and> \<not> is_valid (verdict False)
   \<and> register_poi example_env (\<lambda>_ _ _ _. Inr (verdict False)) example_manager beach
        = Inr (''POI validation failed for: ('' @ [CHR 0x27] @ ''Beach'' @ [CHR 0x27] @ '', ''
                 @ [CHR 0x27] @ ''Sand'' @ [CHR 0x27] @ '')'', example_manager)
   \<and> is_valid (verdict True)
   \<and> register_poi example_env (\<lambda>_ _ _ _. Inr (verdict True)) example_manager beach
        = Inr (''POI registered: Beach, Category: Nature, Location: None'',
               example_manager\<lparr>poi_list := [''Beach'' \<mapsto> (''Sand'', ''Nature'', None)]\<rparr>)
   \<and> poi_list example_manager = Map.empty
   \<and> crawl_steps example_env beach_scraper (Suc 0) (crawl_start example_manager)
        = ([(''https://e.com'', beach_scraper 0 ''https://e.com'', None)],
           example_manager\<lparr>visited_urls := {''https://e.com''},
             poi_list := [''Beach'' \<mapsto> (''Sand'', ''Nature'', None)]\<rparr>)
   \<and> (\<exists>p v. RegisterPoi p (Inr v)
                \<in> set (performed [(''https://e.com'', beach_scraper 0 ''https://e.com'', None)])
              \<and> is_valid v \<and> name p = ''Beach''
              \<and> (''Sand'', ''Nature'', None) = (description p, category p, location p))"
proof -
  let ?no = "(\<lambda>_ _ _ _. Inr (verdict False)) :: validator"
  let ?yes = "(\<lambda>_ _ _ _. Inr (verdict True)) :: validator"
  let ?h = "[(''https://e.com'', beach_scraper 0 ''https://e.com'', None)]"
  let ?st = "example_manager\<lparr>visited_urls := {''https://e.com''},
             poi_list := [''Beach'' \<mapsto> (''Sand'', ''Nature'', None)]\<rparr>"
  have no: "?no (name beach) (description beach) (category beach) (location beach)
              = Inr (verdict False) \<and> \<not> is_valid (verdict False)"
    by (simp add: verdict_def)
  have yes: "?yes (name beach) (description beach) (category beach) (location beach)
              = Inr (verdict True) \<and> is_valid (verdict True)"
    by (simp add: verdict_def)
  have e: "poi_list example_manager = Map.empty"
    by (simp add: example_manager_def)
  have k: "poi_list example_manager = Map.empty
      \<and> crawl_steps example_env beach_scraper (Suc 0) (crawl_start example_manager) = (?h, ?st)
      \<and> poi_list ?st ''Beach'' = Some (''Sand'', ''Nature'', None)"
    using e beach_crawl by simp
  have r1: "register_poi example_env ?no example_manager beach
        = Inr (''POI validation failed for: ('' @ py_repr example_env (name beach) @ '', ''
                   @ py_repr example_env (description beach) @ '')'', example_manager)"
    using register_poi_gate [where validate = ?no and poi = beach and r = "verdict False"
        and ev = example_env and st = example_manager, THEN conjunct1] no
    by (rule mp)
  have r2: "register_poi example_env ?yes example_manager beach
        = Inr (''POI registered: '' @ name beach @ '', Category: '' @ category beach
                 @ '', Location: '' @ (case location beach of None \<Rightarrow> ''None'' | Some l \<Rightarrow> l),
               example_manager\<lparr>poi_list := (poi_list example_manager)
                 (name beach \<mapsto> (description beach, category beach, location beach))\<rparr>)"
    using register_poi_gate [where validate = ?yes and poi = beach and r = "verdict True"
        and ev = example_env and st = example_manager, THEN conjunct2, THEN conjunct1] yes
    by (rule mp)
  have r3: "\<exists>p v. RegisterPoi p (Inr v) \<in> set (performed ?h)
              \<and> is_valid v \<and> name p = ''Beach''
              \<and> (''Sand'', ''Nature'', None) = (description p, category p, location p)"
    using register_poi_gate [where ev = example_env and ?st0.0 = example_manager
        and sc = beach_scraper and k = "Suc 0" and h = ?h and st' = ?st and key = "''Beach''"
        and entry = "(''Sand'', ''Nature'', None)",
        THEN conjunct2, THEN conjunct2, THEN conjunct2] k
    by (rule mp)
  from r1 have r1': "register_poi example_env ?no example_manager beach
        = Inr (''POI validation failed for: ('' @ [CHR 0x27] @ ''Beach'' @ [CHR 0x27] @ '', ''
                 @ [CHR 0x27] @ ''Sand'' @ [CHR 0x27] @ '')'', example_manager)"
    by (simp add: example_env_def beach_def)
  from r2 have r2': "register_poi example_env ?yes example_manager beach
        = Inr (''POI registered: Beach, Category: Nature, Location: None'',
               example_manager\<lparr>poi_list := [''Beach'' \<mapsto> (''Sand'', ''Nature'', None)]\<rparr>)"
    by (simp add: beach_def example_manager_def)
  from no yes e beach_crawl r1' r2' r3 show ?thesis
    by (intro conjI) (simp_all only: simp_thms)
qed

section \<open>C4: the depth score\<close>

text \<open>
  C4 says that the depth used by the link scorer is the count of non-empty path
  segments of the URL, and that the base depth score is 0.0, 0.3, 0.5, 0.7 for the
  depths 0, 1, 2, 3 and 0.9 from depth 4 on, whatever the host and the scheme. This
  does not hold of the code: \<open>len(path.split("/")) - 1\<close> takes off the empty piece
  before the leading slash only, so that an empty segment after a trailing or a
  doubled slash counts as a level. For \<open>https://example.com/\<close>, with no non-empty
  segment, the code returns 0.3 where the table gives 0.0; for
  \<open>https://example.com/guide/\<close>, with one, it returns 0.5 where the table gives
  0.3; for \<open>https://example.com/a//b\<close>, with two, it returns 0.7 where the table
  gives 0.5.
\<close>

theorem trailing_slash_counted_as_level:
  "urlparse example_env ''https://example.com/''
     = Inr \<lparr>netloc = ''example.com'', path = ''/''\<rparr>
   \<and> nonempty_segments ''/'' = 0
   \<and> depth_base 0 = 0.0
   \<and> calculate_depth_score example_env ''https://example.com/'' = Inr 0.3
   \<and> urlparse example_env ''https://example.com/guide/''
     = Inr \<lparr>netloc = ''example.com'', path = ''/guide/''\<rparr>
   \<and> nonempty_segments ''/guide/'' = 1
   \<and> depth_base 1 = 0.3
   \<and> calculate_depth_score example_env ''https://example.com/guide/'' = Inr 0.5
   \<and> urlparse example_env ''https://example.com/a//b''
     = Inr \<lparr>netloc = ''example.com'', path = ''/a//b''\<rparr>
   \<and> nonempty_segments ''/a//b'' = 2
   \<and> depth_base 2 = 0.5
   \<and> calculate_depth_score example_env ''https://example.com/a//b'' = Inr 0.7"
  by (simp add: parse_simps nonempty_segments_def depth_base_def calculate_depth_score_def)

text \<open>
  Where the path has no empty segment after its leading slash, the code does what
  the claim says: the score is the table's value at the count of non-empty segments,
  for any \<open>urlparse\<close>, and so for any host and scheme.
\<close>

lemma depth_score_on_clean_paths:
  assumes "urlparse ev u = Inr p" "clean_path (path p)"
  shows "calculate_depth_score ev u = Inr (depth_base (nonempty_segments (path p)))"
  using depth_score_eq [OF assms(1)] clean_path_segments [OF assms(2)] by simp

lemma depth_score_places:
  "clean_path ''/guide/places'' \<and> nonempty_segments ''/guide/places'' = 2
   \<and> calculate_depth_score example_env ''https://example.com/guide/places'' = Inr 0.5"
proof -
  have c: "clean_path ''/guide/places''"
    by (simp add: clean_path_def)
  have n: "nonempty_segments ''/guide/places'' = 2"
    by (simp add: nonempty_segments_def)
  from depth_score_on_clean_paths [OF parse_places] c n
  have "calculate_depth_score example_env ''https://example.com/guide/places'' = Inr 0.5"
    by (simp add: depth_base_def)
  with c n show ?thesis by simp
qed

section \<open>C5: the order of the frontier\<close>

text \<open>
  C5. Taking an entry from the queue blocks only when the queue is empty; otherwise
  it removes one entry and returns it, and no entry of the queue has a higher
  priority than the one returned. An entry whose priority is strictly the highest
  is the one returned: so the seed, put on the queue with priority 1.0, leaves it
  before any entry of lower priority, and it is the entry the first iteration
  takes. When the queue is empty the loop ends with the state it has, and
  \<open>process\<close> returns the registry; nothing is raised.
\<close>

theorem pop_highest_priority:
  "(pq_get q = None \<longleftrightarrow> pq_empty q)
   \<and> (pq_get q = Some (x, q')
      \<longrightarrow> mset q = add_mset x (mset q') \<and> (\<forall>y\<in>set q. score y \<le> score x))
   \<and> (x \<in> set q \<and> (\<forall>y\<in>set q. y \<noteq> x \<longrightarrow> score y < score x)
      \<longrightarrow> (\<exists>q'. pq_get q = Some (x, q')))
   \<and> (url_queue st = []
      \<longrightarrow> pq_get (url_queue (snd (crawl_start st))) = Some (ScoredURL (base_url st) 1.0, []))
   \<and> (pq_empty (url_queue (snd c)) \<longrightarrow> crawl_loop ev sc c = Some c)
   \<and> (scraper_factory st = Inr sc \<and> crawl_steps ev sc k (crawl_start st) = c
        \<and> pq_empty (url_queue (snd c))
      \<longrightarrow> process ev scraper_factory st = Some (Inr (poi_list (snd c), snd c)))"
proof (intro conjI impI)
  show "pq_get q = None \<longleftrightarrow> pq_empty q"
    by (simp add: pq_get_None pq_empty_def)
next
  assume "pq_get q = Some (x, q')"
  then show "mset q = add_mset x (mset q')" by (rule pq_get_mset)
next
  assume "pq_get q = Some (x, q')"
  then show "\<forall>y\<in>set q. score y \<le> score x" by (blast intro: pq_get_highest)
next
  assume "x \<in> set q \<and> (\<forall>y\<in>set q. y \<noteq> x \<longrightarrow> score y < score x)"
  then show "\<exists>q'. pq_get q = Some (x, q')" by (intro pq_get_strict_max) blast+
next
  assume "url_queue st = []"
  then show "pq_get (url_queue (snd (crawl_start st))) = Some (ScoredURL (base_url st) 1.0, [])"
    by (simp add: crawl_start_def add_to_queue_def pq_put_def)
next
  assume "pq_empty (url_queue (snd c))"
  then show "crawl_loop ev sc c = Some c" by (rule crawl_loop_empty)
next
  assume a: "scraper_factory st = Inr sc \<and> crawl_steps ev sc k (crawl_start st) = c
        \<and> pq_empty (url_queue (snd c))"
  then have "crawl_loop ev sc (crawl_start st) = Some c"
    by (intro crawl_steps_loop [of ev sc k]) simp_all
  with a show "process ev scraper_factory st = Some (Inr (poi_list (snd c), snd c))"
    by (simp add: process_def split: prod.splits)
qed

text \<open>
  The theorem on a queue of three entries, from which the seed is taken first, and
  on the crawl of \<open>beach_scraper\<close>, which ends after one iteration.
\<close>

theorem pop_highest_priority_witness:
  "pq_get example_queue
     = Some (ScoredURL ''https://e.com'' 1.0,
             [ScoredURL ''https://e.com/a'' 0.54, ScoredURL ''https://e.com/b'' 0.3])
   \<and> ScoredURL ''https://e.com'' 1.0 \<in> set example_queue
   \<and> list_all (\<lambda>y. y = ScoredURL ''https://e.com'' 1.0 \<or> score y < 1.0) example_queue
   \<and> list_all (\<lambda>y. score y \<le> 1.0) example_queue
   \<and> url_queue example_manager = []
   \<and> pq_get (url_queue (snd (crawl_start example_manager)))
        = Some (ScoredURL ''https://e.com'' 1.0, [])
   \<and> pq_empty (url_queue (snd (crawl_steps example_env beach_scraper (Suc 0)
                                   (crawl_start example_manager))))
   \<and> process example_env (\<lambda>st. Inr beach_scraper) example_manager
        = Some (Inr ([''Beach'' \<mapsto> (''Sand'', ''Nature'', None)],
             example_manager\<lparr>visited_urls := {''https://e.com''},
               poi_list := [''Beach'' \<mapsto> (''Sand'', ''Nature'', None)]\<rparr>))"
proof -
  let ?seed = "ScoredURL ''https://e.com'' 1.0"
  let ?rest = "[ScoredURL ''https://e.com/a'' 0.54, ScoredURL ''https://e.com/b'' 0.3]"
  let ?c = "crawl_steps example_env beach_scraper (Suc 0) (crawl_start example_manager)"
  note t = pop_highest_priority [where q = example_queue and x = ?seed and q' = ?rest
      and st = example_manager and ev = example_env and sc = beach_scraper
      and scraper_factory = "\<lambda>st. Inr beach_scraper" and k = "Suc 0" and c = ?c]
  have g: "pq_get example_queue = Some (?seed, ?rest)"
    by (simp add: example_queue_def scored_url_lt_def)
  have m: "?seed \<in> set example_queue"
    by (simp add: example_queue_def)
  have s: "list_all (\<lambda>y. y = ?seed \<or> score y < 1.0) example_queue"
    by (simp add: example_queue_def)
  from s have s': "?seed \<in> set example_queue
      \<and> (\<forall>y\<in>set example_queue. y \<noteq> ?seed \<longrightarrow> score y < score ?seed)"
    using m by (auto simp: list_all_iff)
  have "\<forall>y\<in>set example_queue. score y \<le> score ?seed"
    using t [THEN conjunct2, THEN conjunct1] g by blast
  then have le: "list_all (\<lambda>y. score y \<le> 1.0) example_queue"
    by (simp add: list_all_iff)
  have "\<exists>q'. pq_get example_queue = Some (?seed, q')"
    using t [THEN conjunct2, THEN conjunct2, THEN conjunct1] s' by (rule mp)
  have e: "url_queue example_manager = []"
    by (simp add: example_manager_def)
  have f: "pq_get (url_queue (snd (crawl_start example_manager))) = Some (?seed, [])"
    using t [THEN conjunct2, THEN conjunct2, THEN conjunct2, THEN conjunct1] e
    by (simp add: example_manager_def)
  have p: "pq_empty (url_queue (snd ?c))"
    unfolding beach_crawl by (simp add: example_manager_def pq_empty_def)
  have "process example_env (\<lambda>st. Inr beach_scraper) example_manager
          = Some (Inr (poi_list (snd ?c), snd ?c))"
    using t [THEN conjunct2, THEN conjunct2, THEN conjunct2, THEN conjunct2, THEN conjunct2] p
    by (simp only: simp_thms)
  then have r: "process example_env (\<lambda>st. Inr beach_scraper) example_manager
        = Some (Inr ([''Beach'' \<mapsto> (''Sand'', ''Nature'', None)],
             example_manager\<lparr>visited_urls := {''https://e.com''},
               poi_list := [''Beach'' \<mapsto> (''Sand'', ''Nature'', None)]\<rparr>))"
    unfolding beach_crawl by simp
  from g m s le e f p r show ?thesis
    by (intro conjI) (simp_all only: simp_thms)
qed

section \<open>C6: the same-domain restriction\<close>

text \<open>
  C6. A link whose parsed network location differs from the one of the seed URL,
  which the manager keeps as \<open>base_domain\<close>, is never put on the frontier: no entry
  with its URL is among the entries that processing a list of links pushes, whatever
  the scores and depths in the list, and at no moment of a crawl does the queue hold
  an entry with its URL. (The host is a part of the network location, so a different
  host is a different network location.)
\<close>

theorem foreign_host_never_pushed:
  "(urlparse ev u = Inr p \<and> netloc p \<noteq> base_domain st
      \<longrightarrow> u \<notin> url ` set (pushed ev st ls))
   \<and> (init ev seed = Inr st0 \<and> urlparse ev seed = Inr p0
      \<longrightarrow> base_domain st0 = netloc p0)
   \<and> (init ev seed = Inr st0 \<and> urlparse ev seed = Inr p0 \<and> urlparse ev u = Inr p
        \<and> netloc p \<noteq> netloc p0
      \<longrightarrow> u \<notin> url ` set (url_queue (snd (crawl_steps ev sc k (crawl_start st0)))))"
proof (intro conjI impI)
  assume "urlparse ev u = Inr p \<and> netloc p \<noteq> base_domain st"
  then show "u \<notin> url ` set (pushed ev st ls)"
    by (intro pushed_same_domain [of ev u p]) simp_all
next
  assume "init ev seed = Inr st0 \<and> urlparse ev seed = Inr p0"
  then show "base_domain st0 = netloc p0"
    by (auto simp: init_def)
next
  assume a: "init ev seed = Inr st0 \<and> urlparse ev seed = Inr p0 \<and> urlparse ev u = Inr p
        \<and> netloc p \<noteq> netloc p0"
  then have "base_domain st0 = netloc p0" by (auto simp: init_def)
  with a show "u \<notin> url ` set (url_queue (snd (crawl_steps ev sc k (crawl_start st0))))"
    by (intro crawl_foreign_host [of ev seed st0 u p]) simp_all
qed

text \<open>
  The theorem for the seed \<open>https://e.com\<close> and the link \<open>https://x.org/b\<close>, reported
  with score 1.0 at depth 1: it is not pushed, and the queue after the first
  iteration holds the link of the seed's host only.
\<close>

theorem foreign_host_never_pushed_witness:
  "urlparse example_env ''https://x.org/b'' = Inr \<lparr>netloc = ''x.org'', path = ''/b''\<rparr>
   \<and> urlparse example_env ''https://e.com'' = Inr \<lparr>netloc = ''e.com'', path = ''''\<rparr>
   \<and> init example_env ''https://e.com'' = Inr example_manager
   \<and> base_domain example_manager = ''e.com''
   \<and> ''x.org'' \<noteq> ''e.com''
   \<and> calculate_depth_score example_env ''https://x.org/b'' = Inr 0.3
   \<and> ''https://x.org/b'' \<notin> url ` set (pushed example_env example_manager
          [(''https://x.org/b'', 1.0), (''https://e.com/c'', 0.49), (''https://e.com/g/p'', 1.0)])
   \<and> url_queue (snd (crawl_steps example_env links_scraper (Suc 0) (crawl_start example_manager)))
        = [ScoredURL ''https://e.com/g/p'' 0.7]
   \<and> ''https://x.org/b'' \<notin> url ` set (url_queue (snd
          (crawl_steps example_env links_scraper (Suc 0) (crawl_start example_manager))))"
proof -
  let ?u = "''https://x.org/b''"
  let ?p = "\<lparr>netloc = ''x.org'', path = ''/b''\<rparr>"
  let ?seedp = "\<lparr>netloc = ''e.com'', path = ''''\<rparr>"
  let ?ls = "[(''https://x.org/b'', 1.0), (''https://e.com/c'', 0.49), (''https://e.com/g/p'', 1.0)]"
  note t = foreign_host_never_pushed [where ev = example_env and u = ?u and p = ?p
      and st = example_manager and ls = ?ls and seed = "''https://e.com''"
      and ?st0.0 = example_manager and ?p0.0 = ?seedp and sc = links_scraper and k = "Suc 0"]
  have p0: "urlparse example_env ''https://e.com'' = Inr ?seedp"
    by (simp add: parse_simps)
  have b: "base_domain example_manager = ''e.com''"
    by (simp add: example_manager_def)
  have n: "''x.org'' \<noteq> ''e.com''" by simp
  have d: "calculate_depth_score example_env ?u = Inr 0.3"
    using depth_score_eq [OF parse_foreign] by (simp add: depth_base_def)
  have c1: "?u \<notin> url ` set (pushed example_env example_manager ?ls)"
  proof -
    have "urlparse example_env ?u = Inr ?p \<and> netloc ?p \<noteq> base_domain example_manager"
      using parse_foreign b by simp
    with t [THEN conjunct1] show ?thesis by (rule mp)
  qed
  have "base_domain example_manager = netloc ?seedp"
    using t [THEN conjunct2, THEN conjunct1] init_example p0 by blast
  have c3: "?u \<notin> url ` set (url_queue (snd
          (crawl_steps example_env links_scraper (Suc 0) (crawl_start example_manager))))"
  proof -
    have "init example_env ''https://e.com'' = Inr example_manager
        \<and> urlparse example_env ''https://e.com'' = Inr ?seedp
        \<and> urlparse example_env ?u = Inr ?p \<and> netloc ?p \<noteq> netloc ?seedp"
      using init_example p0 parse_foreign by simp
    with t [THEN conjunct2, THEN conjunct2] show ?thesis by (rule mp)
  qed
  have q: "url_queue (snd (crawl_steps example_env links_scraper (Suc 0)
              (crawl_start example_manager))) = [ScoredURL ''https://e.com/g/p'' 0.7]"
    unfolding links_crawl by simp
  from parse_foreign p0 init_example b n d c1 q c3 show ?thesis
    by (intro conjI) (simp_all only: simp_thms)
qed

section \<open>C7: the admission gate and the priority\<close>




section \<open>C8: a visited URL is not scraped again\<close>

text \<open>
  C8, as amended. When the URL taken from the queue is in the visited set, the
  iteration does nothing but take it: the scraper is not invoked (the history is
  unchanged) and the visited set, the link log, the registry and the list of new
  links are what they were. Consequently, over a whole crawl, the visited set is the
  set of the URLs whose iteration ran to its end, at most one iteration per URL runs
  to its end, and the scraper is never invoked for a URL after an iteration for it
  ran to its end. (The scraper itself may return more than once for a URL: an
  iteration that is abandoned after the scraper returned, by an exception raised
  while the new links are processed, does not mark the URL visited.)
\<close>

theorem visited_url_not_rescraped:
  "(pq_get (url_queue st) = Some (x, q) \<and> url x \<in> visited_urls st
      \<longrightarrow> iteration ev sc (h, st) = Some (h, st\<lparr>url_queue := q\<rparr>))
   \<and> (visited_urls st0 = {} \<and> crawl_steps ev sc k (crawl_start st0) = (h', st')
      \<longrightarrow> visited_urls st' = set (completed_urls h') \<and> distinct (completed_urls h')
          \<and> never_rescraped h')"
proof (intro conjI impI)
  assume "pq_get (url_queue st) = Some (x, q) \<and> url x \<in> visited_urls st"
  then show "iteration ev sc (h, st) = Some (h, st\<lparr>url_queue := q\<rparr>)"
    by (simp add: iteration_def)
next
  assume a: "visited_urls st0 = {} \<and> crawl_steps ev sc k (crawl_start st0) = (h', st')"
  then show "visited_urls st' = set (completed_urls h')"
    "distinct (completed_urls h')" "never_rescraped h'"
    using crawl_completed [of st0 ev sc k] by simp_all
qed

text \<open>
  The theorem on the crawl of \<open>retry_scraper\<close>: after three iterations the page
  \<open>https://e.com/a\<close> is visited and on the queue, and the next iteration only takes
  it from the queue.
\<close>

theorem visited_url_not_rescraped_witness:
  "visited_urls example_manager = {}
   \<and> crawl_steps example_env retry_scraper (Suc (Suc (Suc 0))) (crawl_start example_manager)
       = ([(''https://e.com'',
            ([RegisterLink ''https://e.com/a'' 0.9, RegisterLink ''https://e.com/a'' 0.8], Returned),
            None),
           (''https://e.com/a'', ([RegisterLink ''http://[bad'' 0.9], Returned), Some ValueError),
           (''https://e.com/a'', ([], Returned), None)],
          example_manager\<lparr>visited_urls := {''https://e.com/a'', ''https://e.com''},
            url_queue := [ScoredURL ''https://e.com/a'' 0.54, ScoredURL ''https://e.com/a'' 0.5],
            all_links_with_scores :=
              [(''https://e.com/a'', 0.9), (''https://e.com/a'', 0.8), (''http://[bad'', 0.9)],
            current_url_links_with_scores :=
              [(''https://e.com/a'', 0.9), (''https://e.com/a'', 0.8)]\<rparr>)
   \<and> completed_urls
        [(''https://e.com'',
            ([RegisterLink ''https://e.com/a'' 0.9, RegisterLink ''https://e.com/a'' 0.8], Returned),
            None),
           (''https://e.com/a'', ([RegisterLink ''http://[bad'' 0.9], Returned), Some ValueError),
           (''https://e.com/a'', ([], Returned), None)]
       = [''https://e.com'', ''https://e.com/a'']
   \<and> distinct [''https://e.com'', ''https://e.com/a'']
   \<and> pq_get [ScoredURL ''https://e.com/a'' 0.54, ScoredURL ''https://e.com/a'' 0.5]
       = Some (ScoredURL ''https://e.com/a'' 0.54, [ScoredURL ''https://e.com/a'' 0.5])
   \<and> ''https://e.com/a'' \<in> {''https://e.com/a'', ''https://e.com''}
   \<and> iteration example_env retry_scraper
        (crawl_steps example_env retry_scraper (Suc (Suc (Suc 0))) (crawl_start example_manager))
       = Some (fst (crawl_steps example_env retry_scraper (Suc (Suc (Suc 0)))
                      (crawl_start example_manager)),
               (snd (crawl_steps example_env retry_scraper (Suc (Suc (Suc 0)))
                      (crawl_start example_manager)))
                 \<lparr>url_queue := [ScoredURL ''https://e.com/a'' 0.5]\<rparr>)"
proof -
  let ?h = "[(''https://e.com'',
            ([RegisterLink ''https://e.com/a'' 0.9, RegisterLink ''https://e.com/a'' 0.8], Returned),
            None),
           (''https://e.com/a'', ([RegisterLink ''http://[bad'' 0.9], Returned), Some ValueError),
           (''https://e.com/a'', ([], Returned), None)] :: history"
  let ?st = "example_manager\<lparr>visited_urls := {''https://e.com/a'', ''https://e.com''},
            url_queue := [ScoredURL ''https://e.com/a'' 0.54, ScoredURL ''https://e.com/a'' 0.5],
            all_links_with_scores :=
              [(''https://e.com/a'', 0.9), (''https://e.com/a'', 0.8), (''http://[bad'', 0.9)],
            current_url_links_with_scores :=
              [(''https://e.com/a'', 0.9), (''https://e.com/a'', 0.8)]\<rparr>"
  let ?x = "ScoredURL ''https://e.com/a'' 0.54"
  let ?q = "[ScoredURL ''https://e.com/a'' 0.5]"
  let ?c = "crawl_steps example_env retry_scraper (Suc (Suc (Suc 0))) (crawl_start example_manager)"
  note t = visited_url_not_rescraped [where st = ?st and x = ?x and q = ?q
      and ev = example_env and sc = retry_scraper and h = ?h and ?st0.0 = example_manager
      and k = "Suc (Suc (Suc 0))" and h' = ?h and st' = ?st]
  have v: "visited_urls example_manager = {}" by (simp add: example_manager_def)
  have g: "pq_get [ScoredURL ''https://e.com/a'' 0.54, ScoredURL ''https://e.com/a'' 0.5]
             = Some (?x, ?q)"
    by (simp add: scored_url_lt_def)
  have m: "''https://e.com/a'' \<in> {''https://e.com/a'', ''https://e.com''}" by simp
  have hyp1: "pq_get (url_queue ?st) = Some (?x, ?q) \<and> url ?x \<in> visited_urls ?st"
    using g by simp
  from t [THEN conjunct1] hyp1
  have i: "iteration example_env retry_scraper (?h, ?st) = Some (?h, ?st\<lparr>url_queue := ?q\<rparr>)"
    by (rule mp)
  have i': "iteration example_env retry_scraper ?c = Some (fst ?c, (snd ?c)\<lparr>url_queue := ?q\<rparr>)"
    unfolding retry_crawl using i by simp
  have hyp2: "visited_urls example_manager = {} \<and> ?c = (?h, ?st)"
    using v retry_crawl by simp
  from t [THEN conjunct2] hyp2
  have c: "visited_urls ?st = set (completed_urls ?h) \<and> distinct (completed_urls ?h)
      \<and> never_rescraped ?h"
    by (rule mp)
  have cu: "completed_urls ?h = [''https://e.com'', ''https://e.com/a'']"
    by (simp add: completed_urls_def)
  from c have d: "distinct [''https://e.com'', ''https://e.com/a'']"
    unfolding cu by simp
  from v retry_crawl cu d g m i' show ?thesis
    by (intro conjI) (simp_all only: simp_thms)
qed

text \<open>
  The claim as it was stated fails on that crawl: the scraper returned twice for
  \<open>https://e.com/a\<close>, in the second and in the third iteration, because the second
  one was abandoned with the \<open>ValueError\<close> of the malformed link.
\<close>

theorem scraper_returns_twice_counterexample:
  "scraped_urls (fst (crawl_steps example_env retry_scraper (Suc (Suc (Suc 0)))
                        (crawl_start example_manager)))
     = [''https://e.com'', ''https://e.com/a'', ''https://e.com/a'']
   \<and> \<not> distinct (scraped_urls (fst (crawl_steps example_env retry_scraper (Suc (Suc (Suc 0)))
                        (crawl_start example_manager))))
   \<and> map (\<lambda>(u, b, r). (u, snd b, r))
        (fst (crawl_steps example_env retry_scraper (Suc (Suc (Suc 0)))
                (crawl_start example_manager)))
     = [(''https://e.com'', Returned, None), (''https://e.com/a'', Returned, Some ValueError),
        (''https://e.com/a'', Returned, None)]"
  unfolding retry_crawl by (simp add: scraped_urls_def)

section \<open>C9: the crawl of a page without links\<close>

text \<open>
  C9. Let the manager be set up for a seed URL and let the scraper, invoked for the
  seed, return without reporting a link or registering a candidate. Then the loop
  ends after one iteration: the history has the one invocation for the seed, the
  seed is the visited set, the queue is empty, and \<open>process\<close> returns the empty
  registry.
\<close>

theorem crawl_of_empty_page:
  "init ev seed = Inr st0 \<and> scraper_factory st0 = Inr sc \<and> sc 0 seed = ([], Returned)
   \<longrightarrow> crawl_loop ev sc (crawl_start st0)
         = Some ([(seed, ([], Returned), None)], st0\<lparr>visited_urls := {seed}\<rparr>)
       \<and> url_queue (st0\<lparr>visited_urls := {seed}\<rparr>) = []
       \<and> process ev scraper_factory st0
           = Some (Inr (Map.empty, st0\<lparr>visited_urls := {seed}\<rparr>))"
proof (intro impI)
  assume a: "init ev seed = Inr st0 \<and> scraper_factory st0 = Inr sc \<and> sc 0 seed = ([], Returned)"
  let ?c = "([(seed, ([], Returned), None)], st0\<lparr>visited_urls := {seed}\<rparr>)"
  from a have i: "iteration ev sc (crawl_start st0) = Some ?c"
    by (intro empty_page_iteration) simp_all
  from a have e: "url_queue st0 = []" "poi_list st0 = Map.empty"
    by (auto dest: init_Inr)
  have "\<not> pq_empty (url_queue (snd (crawl_start st0)))"
    by (simp add: crawl_start_def add_to_queue_def pq_put_def pq_empty_def)
  then have "crawl_loop ev sc (crawl_start st0) = crawl_loop ev sc ?c"
    using i by (rule crawl_loop_step)
  also have "\<dots> = Some ?c"
    using e by (intro crawl_loop_empty) (simp add: pq_empty_def)
  finally have l: "crawl_loop ev sc (crawl_start st0) = Some ?c" .
  with a e show "crawl_loop ev sc (crawl_start st0) = Some ?c
       \<and> url_queue (st0\<lparr>visited_urls := {seed}\<rparr>) = []
       \<and> process ev scraper_factory st0
           = Some (Inr (Map.empty, st0\<lparr>visited_urls := {seed}\<rparr>))"
    by (simp add: process_def)
qed

text \<open>The theorem for the seed \<open>https://e.com\<close> and the scraper that finds nothing.\<close>

theorem crawl_of_empty_page_witness:
  "init example_env ''https://e.com'' = Inr example_manager
   \<and> (\<lambda>st. Inr silent_scraper :: error + scraper) example_manager = Inr silent_scraper
   \<and> silent_scraper 0 ''https://e.com'' = ([], Returned)
   \<and> crawl_loop example_env silent_scraper (crawl_start example_manager)
       = Some ([(''https://e.com'', ([], Returned), None)],
               example_manager\<lparr>visited_urls := {''https://e.com''}\<rparr>)
   \<and> process example_env (\<lambda>st. Inr silent_scraper) example_manager
       = Some (Inr (Map.empty, example_manager\<lparr>visited_urls := {''https://e.com''}\<rparr>))"
proof -
  have s: "silent_scraper 0 ''https://e.com'' = ([], Returned)"
    by (simp add: silent_scraper_def)
  have f: "(\<lambda>st. Inr silent_scraper :: error + scraper) example_manager = Inr silent_scraper"
    by simp
  have hyp: "init example_env ''https://e.com'' = Inr example_manager
      \<and> (\<lambda>st. Inr silent_scraper :: error + scraper) example_manager = Inr silent_scraper
      \<and> silent_scraper 0 ''https://e.com'' = ([], Returned)"
    using init_example s by simp
  from crawl_of_empty_page [where ev = example_env and seed = "''https://e.com''"
      and ?st0.0 = example_manager and scraper_factory = "\<lambda>st. Inr silent_scraper"
      and sc = silent_scraper] hyp
  have c: "crawl_loop example_env silent_scraper (crawl_start example_manager)
         = Some ([(''https://e.com'', ([], Returned), None)],
                 example_manager\<lparr>visited_urls := {''https://e.com''}\<rparr>)
       \<and> url_queue (example_manager\<lparr>visited_urls := {''https://e.com''}\<rparr>) = []
       \<and> process example_env (\<lambda>st. Inr silent_scraper) example_manager
           = Some (Inr (Map.empty, example_manager\<lparr>visited_urls := {''https://e.com''}\<rparr>))"
    by (rule mp)
  from init_example f s c show ?thesis
    by (intro conjI) (simp_all only: simp_thms)
qed

section \<open>C10: links reported before the scraper raised\<close>

text \<open>
  C10, as amended. The links that the scraper registered during an invocation that
  then raises stay in the link log, and that iteration leaves the list kept from the
  last computation of the new links (the snapshot) as it is; so does every iteration
  in which no scraper invocation returns (the URL taken is visited, or the scraper
  raises), and such an iteration only appends to the log. In the next iteration whose
  scraper invocation returns, every pair of the log that is not in the snapshot is
  in the list of new links; and when that iteration raises no exception, each pair
  of the list has been evaluated for admission: it is pushed if its score is at
  least 0.5 and its URL is unvisited and on the seed's network location.
\<close>

theorem failed_scrape_links_kept:
  "(sc n u = (cbs, Raised e) \<and> try_body ev sc n st u = (r, st1)
      \<longrightarrow> r = Some e
        \<and> all_links_with_scores st1 = all_links_with_scores st @ reported_links cbs
        \<and> current_url_links_with_scores st1 = current_url_links_with_scores st)
   \<and> (iteration ev sc (h, st) = Some (h', st') \<and> scraped_urls h' = scraped_urls h
      \<longrightarrow> current_url_links_with_scores st' = current_url_links_with_scores st
        \<and> (\<exists>ls. all_links_with_scores st' = all_links_with_scores st @ ls))
   \<and> (sc m u2 = (cbs2, Returned) \<and> try_body ev sc m st2 u2 = (r2, st3)
        \<and> (v, s) \<in> set (all_links_with_scores st2)
        \<and> (v, s) \<notin> set (current_url_links_with_scores st2)
      \<longrightarrow> (v, s) \<in> set (current_url_links_with_scores st3))
   \<and> (sc m u2 = (cbs2, Returned) \<and> try_body ev sc m st2 u2 = (None, st3)
        \<and> (v, s) \<in> set (current_url_links_with_scores st3)
        \<and> 0.5 \<le> s \<and> v \<notin> visited_urls st2 \<and> urlparse ev v = Inr p
        \<and> netloc p = base_domain st2
      \<longrightarrow> ScoredURL v (0.4 * s + 0.6 * depth_base (count_list (path p) CHR ''/''))
            \<in> set (url_queue st3))"
proof (intro conjI impI)
  assume a: "sc n u = (cbs, Raised e) \<and> try_body ev sc n st u = (r, st1)"
  then have "r = Some e \<and> st1 = run_callbacks ev st cbs"
    using try_body_Raised [of sc n u cbs e ev st] by simp
  then show "r = Some e"
    "all_links_with_scores st1 = all_links_with_scores st @ reported_links cbs"
    "current_url_links_with_scores st1 = current_url_links_with_scores st"
    by (simp_all add: run_callbacks_eq)
next
  assume a: "iteration ev sc (h, st) = Some (h', st') \<and> scraped_urls h' = scraped_urls h"
  then have "current_url_links_with_scores st' = current_url_links_with_scores st
       \<and> (\<exists>ls. all_links_with_scores st' = all_links_with_scores st @ ls)"
    by (intro quiet_iteration [of ev sc h st h' st']) simp_all
  then show "current_url_links_with_scores st' = current_url_links_with_scores st"
    "\<exists>ls. all_links_with_scores st' = all_links_with_scores st @ ls"
    by simp_all
next
  assume a: "sc m u2 = (cbs2, Returned) \<and> try_body ev sc m st2 u2 = (r2, st3)
        \<and> (v, s) \<in> set (all_links_with_scores st2)
        \<and> (v, s) \<notin> set (current_url_links_with_scores st2)"
  then have "all_links_with_scores st3 = all_links_with_scores st2 @ reported_links cbs2"
    by (intro try_body_log [of sc m u2 cbs2 Returned ev st2 r2 st3]) simp_all
  moreover from a have "current_url_links_with_scores st3
      = new_links ev m (all_links_with_scores st3) (current_url_links_with_scores st2)"
    by (intro try_body_new_links(1) [of sc m u2 cbs2 ev st2 r2 st3]) simp_all
  ultimately show "(v, s) \<in> set (current_url_links_with_scores st3)"
    using a by (simp add: set_new_links)
next
  assume a: "sc m u2 = (cbs2, Returned) \<and> try_body ev sc m st2 u2 = (None, st3)
        \<and> (v, s) \<in> set (current_url_links_with_scores st3)
        \<and> 0.5 \<le> s \<and> v \<notin> visited_urls st2 \<and> urlparse ev v = Inr p
        \<and> netloc p = base_domain st2"
  then have n: "fst (process_links ev st2 (current_url_links_with_scores st3)) = None"
    using try_body_new_links(2) [of sc m u2 cbs2 ev st2 None st3] by simp
  from a have q: "url_queue st3
      = url_queue st2 @ pushed ev st2 (current_url_links_with_scores st3)"
    by (intro try_body_queue [of sc m u2 cbs2 ev st2 None st3]) simp_all
  from a have "ScoredURL v (0.4 * s + 0.6 * depth_base (count_list (path p) CHR ''/''))
      \<in> set (pushed ev st2 (current_url_links_with_scores st3))"
    by (intro pushed_member [OF n]) simp_all
  with q show "ScoredURL v (0.4 * s + 0.6 * depth_base (count_list (path p) CHR ''/''))
            \<in> set (url_queue st3)"
    by simp
qed

text \<open>
  The theorem on the crawl of \<open>recover_scraper\<close>: the link to \<open>d\<close>, registered before
  the scraper raised for \<open>a\<close>, is in the log and not in the snapshot, and the next
  iteration, for \<open>b\<close>, has it in its list of new links and pushes it.
\<close>

theorem failed_scrape_links_kept_witness:
  "recover_scraper 1 ''https://e.com/a''
      = ([RegisterLink ''https://e.com/d'' 0.9], Raised (Exception ''timeout''))
   \<and> try_body example_env recover_scraper 1 before_failure ''https://e.com/a''
      = (Some (Exception ''timeout''), after_failure)
   \<and> all_links_with_scores after_failure
      = all_links_with_scores before_failure @ [(''https://e.com/d'', 0.9)]
   \<and> current_url_links_with_scores after_failure
      = current_url_links_with_scores before_failure
   \<and> iteration example_env recover_scraper
        ([(''https://e.com'', recover_scraper 0 ''https://e.com'', None)],
         before_failure\<lparr>url_queue := [ScoredURL ''https://e.com/a'' 0.54,
                                         ScoredURL ''https://e.com/b'' 0.5]\<rparr>)
      = Some ([(''https://e.com'', recover_scraper 0 ''https://e.com'', None),
               (''https://e.com/a'', recover_scraper 1 ''https://e.com/a'',
                Some (Exception ''timeout''))],
              after_failure)
   \<and> scraped_urls [(''https://e.com'', recover_scraper 0 ''https://e.com'', None),
               (''https://e.com/a'', recover_scraper 1 ''https://e.com/a'',
                Some (Exception ''timeout''))]
      = scraped_urls [(''https://e.com'', recover_scraper 0 ''https://e.com'', None)]
   \<and> recover_scraper 2 ''https://e.com/b'' = ([], Returned)
   \<and> try_body example_env recover_scraper 2 (after_failure\<lparr>url_queue := []\<rparr>)
        ''https://e.com/b'' = (None, after_recovery)
   \<and> (''https://e.com/d'', 0.9)
        \<in> set (all_links_with_scores (after_failure\<lparr>url_queue := []\<rparr>))
   \<and> (''https://e.com/d'', 0.9)
        \<notin> set (current_url_links_with_scores (after_failure\<lparr>url_queue := []\<rparr>))
   \<and> (''https://e.com/d'', 0.9) \<in> set (current_url_links_with_scores after_recovery)
   \<and> (0.5 :: real) \<le> 0.9
   \<and> ''https://e.com/d'' \<notin> visited_urls (after_failure\<lparr>url_queue := []\<rparr>)
   \<and> urlparse example_env ''https://e.com/d'' = Inr \<lparr>netloc = ''e.com'', path = ''/d''\<rparr>
   \<and> ''e.com'' = base_domain (after_failure\<lparr>url_queue := []\<rparr>)
   \<and> ScoredURL ''https://e.com/d'' 0.54 \<in> set (url_queue after_recovery)"
proof -
  let ?a = "''https://e.com/a''"
  let ?b = "''https://e.com/b''"
  let ?d = "''https://e.com/d''"
  let ?e = "Exception ''timeout''"
  let ?dp = "\<lparr>netloc = ''e.com'', path = ''/d''\<rparr>"
  let ?st2 = "after_failure\<lparr>url_queue := []\<rparr>"
  let ?h1 = "[(''https://e.com'', recover_scraper 0 ''https://e.com'', None)] :: history"
  let ?h2 = "[(''https://e.com'', recover_scraper 0 ''https://e.com'', None),
              (?a, recover_scraper 1 ?a, Some ?e)] :: history"
  let ?stq = "before_failure\<lparr>url_queue := [ScoredURL ''https://e.com/a'' 0.54,
                                         ScoredURL ''https://e.com/b'' 0.5]\<rparr>"
  note t = failed_scrape_links_kept [where sc = recover_scraper and ev = example_env
      and n = 1 and u = ?a and cbs = "[RegisterLink ?d 0.9]" and e = ?e
      and st = before_failure and r = "Some ?e" and ?st1.0 = after_failure
      and m = 2 and ?u2.0 = ?b and ?cbs2.0 = "[]" and ?st2.0 = ?st2 and ?r2.0 = None
      and ?st3.0 = after_recovery and v = ?d and s = "0.9" and p = ?dp]
  have s1: "recover_scraper 1 ?a = ([RegisterLink ?d 0.9], Raised ?e)"
    by (simp add: recover_scraper_def)
  have s2: "recover_scraper 2 ?b = ([], Returned)"
    by (simp add: recover_scraper_def)
  have hyp1: "recover_scraper 1 ?a = ([RegisterLink ?d 0.9], Raised ?e)
      \<and> try_body example_env recover_scraper 1 before_failure ?a = (Some ?e, after_failure)"
    using s1 recover_failure by simp
  from t [THEN conjunct1] hyp1
  have c1: "Some ?e = Some ?e
      \<and> all_links_with_scores after_failure
          = all_links_with_scores before_failure @ reported_links [RegisterLink ?d 0.9]
      \<and> current_url_links_with_scores after_failure
          = current_url_links_with_scores before_failure"
    by (rule mp)
  then have c1a: "all_links_with_scores after_failure
      = all_links_with_scores before_failure @ [(?d, 0.9)]"
    and c1b: "current_url_links_with_scores after_failure
      = current_url_links_with_scores before_failure"
    by simp_all
  have su: "scraped_urls ?h2 = scraped_urls ?h1"
    by (simp add: scraped_urls_def recover_scraper_def)
  have m1: "(?d, 0.9) \<in> set (all_links_with_scores ?st2)"
    by (simp add: after_failure_def)
  have m2: "(?d, 0.9) \<notin> set (current_url_links_with_scores ?st2)"
    by (simp add: after_failure_def before_failure_def)
  have hyp3: "recover_scraper 2 ?b = ([], Returned)
      \<and> try_body example_env recover_scraper 2 ?st2 ?b = (None, after_recovery)
      \<and> (?d, 0.9) \<in> set (all_links_with_scores ?st2)
      \<and> (?d, 0.9) \<notin> set (current_url_links_with_scores ?st2)"
    using s2 recover_success m1 m2 by simp
  from t [THEN conjunct2, THEN conjunct2, THEN conjunct1] hyp3
  have c3: "(?d, 0.9) \<in> set (current_url_links_with_scores after_recovery)"
    by (rule mp)
  have le: "(0.5 :: real) \<le> 0.9" by simp
  have v: "?d \<notin> visited_urls ?st2"
    by (simp add: after_failure_def before_failure_def)
  have bd: "''e.com'' = base_domain ?st2"
    by (simp add: after_failure_def before_failure_def example_manager_def)
  have hyp4: "recover_scraper 2 ?b = ([], Returned)
      \<and> try_body example_env recover_scraper 2 ?st2 ?b = (None, after_recovery)
      \<and> (?d, 0.9) \<in> set (current_url_links_with_scores after_recovery)
      \<and> 0.5 \<le> (0.9 :: real) \<and> ?d \<notin> visited_urls ?st2
      \<and> urlparse example_env ?d = Inr ?dp \<and> netloc ?dp = base_domain ?st2"
    using s2 recover_success c3 le v parse_d bd by simp
  from t [THEN conjunct2, THEN conjunct2, THEN conjunct2] hyp4
  have "ScoredURL ?d (0.4 * 0.9 + 0.6 * depth_base (count_list (path ?dp) CHR ''/''))
          \<in> set (url_queue after_recovery)"
    by (rule mp)
  then have c4: "ScoredURL ?d 0.54 \<in> set (url_queue after_recovery)"
    by (simp add: depth_base_def)
  from s1 recover_failure c1a c1b recover_iteration su s2 recover_success m1 m2 c3 le v
    parse_d bd c4
  show ?thesis
    by (intro conjI) (simp_all only: simp_thms)
qed

text \<open>
  The claim as it was stated fails on the crawl of \<open>repeat_scraper\<close>: the pair of
  \<open>b\<close> and 0.8 is registered again before the scraper raises for \<open>a\<close>; the next
  iteration, for \<open>b\<close>, raises nothing, and its list of new links is empty.
\<close>

theorem repeated_pair_not_new_counterexample:
  "crawl_steps example_env repeat_scraper (Suc (Suc (Suc 0))) (crawl_start example_manager)
     = ([(''https://e.com'',
          ([RegisterLink ''https://e.com/a'' 0.9, RegisterLink ''https://e.com/b'' 0.8], Returned),
          None),
         (''https://e.com/a'',
          ([RegisterLink ''https://e.com/b'' 0.8], Raised (Exception ''timeout'')),
          Some (Exception ''timeout'')),
         (''https://e.com/b'', ([], Returned), None)],
        example_manager\<lparr>visited_urls := {''https://e.com/b'', ''https://e.com''},
          all_links_with_scores :=
            [(''https://e.com/a'', 0.9), (''https://e.com/b'', 0.8), (''https://e.com/b'', 0.8)],
          current_url_links_with_scores := []\<rparr>)
   \<and> reported_links [RegisterLink ''https://e.com/b'' 0.8] = [(''https://e.com/b'', 0.8)]
   \<and> (''https://e.com/b'', 0.8)
        \<notin> set (current_url_links_with_scores (snd (crawl_steps example_env repeat_scraper
               (Suc (Suc (Suc 0))) (crawl_start example_manager))))"
proof -
  have "(''https://e.com/b'', 0.8)
        \<notin> set (current_url_links_with_scores (snd (crawl_steps example_env repeat_scraper
               (Suc (Suc (Suc 0))) (crawl_start example_manager))))"
    unfolding repeat_crawl by simp
  moreover have "reported_links [RegisterLink ''https://e.com/b'' 0.8] = [(''https://e.com/b'', 0.8)]"
    by simp
  ultimately show ?thesis
    using repeat_crawl by (intro conjI) (simp_all only: simp_thms)
qed

end
